theory Spec2Isabelle
  imports Complex_Main "HOL-Library.Multiset"
begin

section \<open>Grid engine (class PaperIOGame): data model\<close>

text \<open>
  A board position is the pair \<open>(x, y)\<close>. The source keys its sets by the string
  \<^verbatim>\<open>`${x},${y}`\<close>; that string determines the two integers and is determined by them,
  so a set of keys is modelled as a collection of pairs.

  A JavaScript \<^verbatim>\<open>Set\<close> keeps its members in insertion order and ignores the insertion
  of a member it already has: it is a list without duplicates, \<open>Set_add\<close> appending a
  new member at the end. \<^verbatim>\<open>Set.size\<close> is the length of that list.
\<close>

type_synonym cell = "int \<times> int"

definition Set_has :: "cell list \<Rightarrow> cell \<Rightarrow> bool" where
  "Set_has s k = (k \<in> set s)"

definition Set_add :: "cell list \<Rightarrow> cell \<Rightarrow> cell list" where
  "Set_add s k = (if Set_has s k then s else s @ [k])"

text \<open>
  The player object. The fields \<^verbatim>\<open>id\<close>, \<^verbatim>\<open>x\<close> and \<^verbatim>\<open>y\<close> of the source are \<open>pid\<close>,
  \<open>px\<close> and \<open>py\<close> here; the others keep their names.
\<close>

record player =
  pid :: nat
  px :: int
  py :: int
  direction :: "int \<times> int"
  color :: string
  trail :: "cell list"
  territory :: "cell list"
  alive :: bool
  isHuman :: bool
  lastMoveTime :: int
  moveInterval :: real

text \<open>
  The game object. \<^verbatim>\<open>this.grid\<close> is an array of \<^verbatim>\<open>mapHeight\<close> row arrays; the rows are
  created by \<^verbatim>\<open>initializeGame\<close> and no row is added or removed afterwards, so row \<open>y\<close>
  exists exactly when \<open>0 \<le> y < mapHeight\<close>. An array is an object from indices to
  values: reading an index that was never written gives \<^verbatim>\<open>undefined\<close> (\<open>None\<close> here),
  and writing any index of an existing row stores the value. The grid is therefore the
  map from \<open>(x, y)\<close> to the owner stored at \<^verbatim>\<open>grid[y][x]\<close>.
  The players are addressed by their index in \<^verbatim>\<open>this.players\<close>: every player object
  the source passes around is an element of that array.
\<close>

record game =
  mapWidth :: int
  mapHeight :: int
  grid :: "cell \<Rightarrow> nat option"
  players :: "player list"
  gameRunning :: bool
  gameStartTime :: int

definition gameTimeLimit :: int where
  "gameTimeLimit = 180000"

definition isValidPosition :: "game \<Rightarrow> int \<Rightarrow> int \<Rightarrow> bool" where
  "isValidPosition st x y = (x \<ge> 0 \<and> x < mapWidth st \<and> y \<ge> 0 \<and> y < mapHeight st)"

subsection \<open>isValidMove\<close>

text \<open>\<^verbatim>\<open>trail.some(pos => pos.x === x && pos.y === y)\<close>\<close>

definition trailSome :: "cell list \<Rightarrow> int \<Rightarrow> int \<Rightarrow> bool" where
  "trailSome tr x y = list_ex (\<lambda>pos. fst pos = x \<and> snd pos = y) tr"

definition isValidMove :: "game \<Rightarrow> player \<Rightarrow> int \<Rightarrow> int \<Rightarrow> bool" where
  "isValidMove st player x y =
     (if x < 0 \<or> x \<ge> mapWidth st \<or> y < 0 \<or> y \<ge> mapHeight st then False
      else
        let cellOwner = grid st (x, y) in
        if cellOwner \<noteq> Some 0 \<and> cellOwner \<noteq> Some (pid player) then False
        else if trailSome (trail player) x y then False
        else if list_ex (\<lambda>otherPlayer.
                   pid otherPlayer \<noteq> pid player \<and> alive otherPlayer
                   \<and> trailSome (trail otherPlayer) x y) (players st)
        then False
        else True)"

subsection \<open>Run-time errors and loops\<close>

text \<open>
  Two run-time errors can leave a function of the engine: a \<^verbatim>\<open>TypeError\<close>, when
  \<^verbatim>\<open>this.grid[y]\<close> is \<^verbatim>\<open>undefined\<close> and is indexed, and a \<^verbatim>\<open>RangeError\<close>, when the
  call stack is exhausted by a recursion. A function that can raise returns
  \<open>js_error + game\<close>. The number of stack frames still available is the parameter
  \<open>depth\<close> of the recursive \<open>eliminatePlayer\<close> and of its callers.
\<close>

datatype js_error = TypeError | RangeError

definition ebind :: "'e + 'a \<Rightarrow> ('a \<Rightarrow> 'e + 'b) \<Rightarrow> 'e + 'b" where
  "ebind m f = (case m of Inl e \<Rightarrow> Inl e | Inr a \<Rightarrow> f a)"

text \<open>A \<^verbatim>\<open>for (const v of xs) body\<close> whose body can raise: the first error ends the loop.\<close>

fun forOf :: "'a list \<Rightarrow> 's \<Rightarrow> ('a \<Rightarrow> 's \<Rightarrow> 'e + 's) \<Rightarrow> 'e + 's" where
  "forOf [] s body = Inr s"
| "forOf (v # vs) s body = (case body v s of Inl e \<Rightarrow> Inl e | Inr s' \<Rightarrow> forOf vs s' body)"

definition updPlayer :: "game \<Rightarrow> nat \<Rightarrow> (player \<Rightarrow> player) \<Rightarrow> game" where
  "updPlayer st i f = st\<lparr>players := (players st)[i := f (players st ! i)]\<rparr>"

text \<open>\<^verbatim>\<open>this.grid[y][x] = v\<close>: a \<^verbatim>\<open>TypeError\<close> when row \<open>y\<close> does not exist.\<close>

definition gridWrite :: "game \<Rightarrow> cell \<Rightarrow> nat \<Rightarrow> js_error + game" where
  "gridWrite st pos v =
     (if 0 \<le> snd pos \<and> snd pos < mapHeight st
      then Inr (st\<lparr>grid := (grid st)(pos \<mapsto> v)\<rparr>)
      else Inl TypeError)"

subsection \<open>eliminatePlayer\<close>

lemma forOf_cong [fundef_cong]:
  "xs = ys \<Longrightarrow> s = t \<Longrightarrow> (\<And>v a. v \<in> set ys \<Longrightarrow> f v a = g v a) \<Longrightarrow> forOf xs s f = forOf ys t g"
  by (induction ys arbitrary: xs s t) (auto split: sum.splits)

text \<open>
  The inner loop iterates the array that \<^verbatim>\<open>player.trail\<close> holds when the loop starts;
  \<^verbatim>\<open>otherPlayer.trail\<close> is read again at every test.
\<close>

fun eliminatePlayer :: "nat \<Rightarrow> game \<Rightarrow> nat \<Rightarrow> js_error + game" where
  "eliminatePlayer 0 st i = Inl RangeError"
| "eliminatePlayer (Suc depth) st i =
     (let st1 = updPlayer st i (\<lambda>p. p\<lparr>alive := False, trail := []\<rparr>) in
      forOf [0..<length (players st1)] st1 (\<lambda>j acc.
        if pid (players acc ! j) \<noteq> pid (players acc ! i) \<and> alive (players acc ! j)
        then forOf (trail (players acc ! i)) acc (\<lambda>trailPos acc2.
               if trailSome (trail (players acc2 ! j)) (fst trailPos) (snd trailPos)
               then eliminatePlayer depth acc2 j
               else Inr acc2)
        else Inr acc))"

subsection \<open>Flood fill\<close>

definition regionTouchesBorder :: "game \<Rightarrow> cell list \<Rightarrow> bool" where
  "regionTouchesBorder st region =
     list_ex (\<lambda>(x, y). x = 0 \<or> x = mapWidth st - 1 \<or> y = 0 \<or> y = mapHeight st - 1) region"

text \<open>
  The \<^verbatim>\<open>while (stack.length > 0)\<close> loop of \<^verbatim>\<open>getConnectedRegion\<close>. The head of the
  list is the top of the stack, the element \<^verbatim>\<open>stack.pop()\<close> removes; the four pushes
  leave \<open>(x, y - 1)\<close> on top. The result is the region and the updated \<open>visited\<close> set,
  which the source mutates in place.
\<close>

function getConnectedRegion_loop ::
  "game \<Rightarrow> cell list \<Rightarrow> cell list \<Rightarrow> cell list \<Rightarrow> cell list \<times> cell list" where
  "getConnectedRegion_loop st [] region visited = (region, visited)"
| "getConnectedRegion_loop st ((x, y) # stack) region visited =
     (if Set_has visited (x, y) \<or> Set_has region (x, y)
      then getConnectedRegion_loop st stack region visited
      else if x < 0 \<or> x \<ge> mapWidth st \<or> y < 0 \<or> y \<ge> mapHeight st
      then getConnectedRegion_loop st stack region visited
      else if grid st (x, y) \<noteq> Some 0
      then getConnectedRegion_loop st stack region visited
      else getConnectedRegion_loop st
             ((x, y - 1) # (x, y + 1) # (x - 1, y) # (x + 1, y) # stack)
             (Set_add region (x, y)) (Set_add visited (x, y)))"
  by pat_completeness auto
termination
proof (relation "measures
    [\<lambda>(st, stack, region, visited).
        card (({0..<mapWidth st} \<times> {0..<mapHeight st}) - set visited),
     \<lambda>(st, stack, region, visited). length stack]", goal_cases)
  case (5 st x y stack region visited)
  let ?B = "{0..<mapWidth st} \<times> {0..<mapHeight st}"
  have mem: "(x, y) \<in> ?B - set visited"
    using 5 by (auto simp: Set_has_def)
  have eq: "?B - set (Set_add visited (x, y)) = (?B - set visited) - {(x, y)}"
    by (auto simp: Set_add_def Set_has_def)
  have fin: "finite (?B - set visited)"
    by simp
  have "card ((?B - set visited) - {(x, y)}) < card (?B - set visited)"
    by (rule card_Diff1_less [OF fin mem])
  then show ?case by (simp add: eq)
qed auto

definition getConnectedRegion :: "game \<Rightarrow> int \<Rightarrow> int \<Rightarrow> cell list \<Rightarrow> cell list \<times> cell list" where
  "getConnectedRegion st startX startY visited =
     getConnectedRegion_loop st [(startX, startY)] [] visited"

text \<open>
  The body of the two nested \<^verbatim>\<open>for\<close> loops of \<^verbatim>\<open>floodFillTerritory\<close> at the cell
  \<open>(x, y)\<close>; the loop state is the game and the local set \<open>visited\<close>.
\<close>

definition floodFillCell :: "nat \<Rightarrow> cell \<Rightarrow> game \<times> cell list \<Rightarrow> js_error + game \<times> cell list" where
  "floodFillCell i c sv =
     (let st = fst sv; visited = snd sv in
      if grid st c = Some 0 \<and> \<not> Set_has visited c
      then
        let rv = getConnectedRegion st (fst c) (snd c) visited;
            region = fst rv in
        if \<not> regionTouchesBorder st region
        then ebind (forOf region st (\<lambda>pos s.
                      ebind (gridWrite s pos (pid (players s ! i))) (\<lambda>s'.
                        Inr (updPlayer s' i (\<lambda>p. p\<lparr>territory := Set_add (territory p) pos\<rparr>)))))
               (\<lambda>st'. Inr (st', snd rv))
        else Inr (st, snd rv)
      else Inr (st, visited))"

definition boardCells :: "game \<Rightarrow> cell list" where
  "boardCells st =
     concat (map (\<lambda>x. map (\<lambda>y. (x, y)) [0..mapHeight st - 1]) [0..mapWidth st - 1])"

definition floodFillTerritory :: "game \<Rightarrow> nat \<Rightarrow> js_error + game" where
  "floodFillTerritory st i =
     ebind (forOf (boardCells st) (st, []) (floodFillCell i)) (\<lambda>sv. Inr (fst sv))"

subsection \<open>claimTerritory and movePlayer\<close>

text \<open>\<^verbatim>\<open>updateScores\<close> only writes the score panel of the page and is left out.\<close>

definition claimTerritory :: "game \<Rightarrow> nat \<Rightarrow> js_error + game" where
  "claimTerritory st i =
     (if length (trail (players st ! i)) = 0 then Inr st
      else
        ebind (forOf (trail (players st ! i)) st (\<lambda>pos s.
                 gridWrite (updPlayer s i (\<lambda>p. p\<lparr>territory := Set_add (territory p) pos\<rparr>))
                   pos (pid (players s ! i)))) (\<lambda>st1.
        ebind (floodFillTerritory st1 i) (\<lambda>st2.
        Inr (updPlayer st2 i (\<lambda>p. p\<lparr>trail := []\<rparr>)))))"

definition movePlayer :: "nat \<Rightarrow> game \<Rightarrow> nat \<Rightarrow> js_error + game" where
  "movePlayer depth st i =
     (let player = players st ! i;
          newX = px player + fst (direction player);
          newY = py player + snd (direction player) in
      if \<not> isValidMove st player newX newY then eliminatePlayer depth st i
      else
        let st1 = (if \<not> Set_has (territory player) (px player, py player)
                   then updPlayer st i (\<lambda>p. p\<lparr>trail := trail p @ [(px p, py p)]\<rparr>)
                   else st);
            st2 = updPlayer st1 i (\<lambda>p. p\<lparr>px := newX, py := newY\<rparr>)
        in
        if Set_has (territory (players st2 ! i)) (newX, newY) \<and> length (trail (players st2 ! i)) > 0
        then claimTerritory st2 i
        else Inr st2)"

subsection \<open>Random numbers\<close>

text \<open>
  \<^verbatim>\<open>Math.random()\<close> is an input of the simulation: the stream of the numbers it will
  return. A call takes the first and leaves the rest.
\<close>

type_synonym rng = "nat \<Rightarrow> real"

definition randomNext :: "rng \<Rightarrow> real \<times> rng" where
  "randomNext r = (r 0, \<lambda>n. r (Suc n))"

text \<open>
  \<^verbatim>\<open>xs[Math.floor(v * xs.length)]\<close>. Outside the array the source reads
  \<^verbatim>\<open>undefined\<close>; every caller stores the result in \<^verbatim>\<open>player.direction\<close>, whose next
  read, \<^verbatim>\<open>player.direction.x\<close>, is then a \<^verbatim>\<open>TypeError\<close>.
\<close>

definition randomElement :: "'a list \<Rightarrow> real \<Rightarrow> js_error + 'a" where
  "randomElement xs v =
     (let k = \<lfloor>v * real (length xs)\<rfloor> in
      if 0 \<le> k \<and> k < int (length xs) then Inr (xs ! nat k) else Inl TypeError)"

subsection \<open>updateAI, updatePlayers\<close>

definition directions :: "(int \<times> int) list" where
  "directions = [(0, -1), (0, 1), (-1, 0), (1, 0)]"

text \<open>The end of \<^verbatim>\<open>updateAI\<close>, from \<^verbatim>\<open>// Find safe directions\<close> on.\<close>

definition chooseSafeDirection :: "game \<Rightarrow> nat \<Rightarrow> rng \<Rightarrow> js_error + game \<times> rng" where
  "chooseSafeDirection st i r =
     (let player = players st ! i;
          safeDirections = filter (\<lambda>dir.
             isValidMove st player (px player + fst dir) (py player + snd dir)
             \<and> \<not> (fst dir = - fst (direction player) \<and> snd dir = - snd (direction player)))
             directions in
      if length safeDirections > 0
      then
        let vr = randomNext r in
        ebind (randomElement safeDirections (fst vr)) (\<lambda>d.
          Inr (updPlayer st i (\<lambda>p. p\<lparr>direction := d\<rparr>), snd vr))
      else Inr (st, r))"

definition updateAI :: "game \<Rightarrow> nat \<Rightarrow> rng \<Rightarrow> js_error + game \<times> rng" where
  "updateAI st i r =
     (let player = players st ! i in
      if fst (direction player) = 0 \<and> snd (direction player) = 0
      then
        let vr = randomNext r in
        ebind (randomElement directions (fst vr)) (\<lambda>d.
          Inr (updPlayer st i (\<lambda>p. p\<lparr>direction := d\<rparr>), snd vr))
      else
        let nextX = px player + fst (direction player);
            nextY = py player + snd (direction player) in
        if isValidMove st player nextX nextY
        then
          let vr = randomNext r in
          if fst vr < 0.9 then Inr (st, snd vr) else chooseSafeDirection st i (snd vr)
        else chooseSafeDirection st i r)"

definition updatePlayer :: "nat \<Rightarrow> int \<Rightarrow> nat \<Rightarrow> game \<times> rng \<Rightarrow> js_error + game \<times> rng" where
  "updatePlayer depth currentTime i sr =
     (let st = fst sr; r = snd sr in
      if \<not> alive (players st ! i) then Inr (st, r)
      else if real_of_int (currentTime - lastMoveTime (players st ! i)) \<ge> moveInterval (players st ! i)
      then
        ebind (if \<not> isHuman (players st ! i) then updateAI st i r else Inr (st, r)) (\<lambda>sr1.
          let st1 = fst sr1 in
          if fst (direction (players st1 ! i)) \<noteq> 0 \<or> snd (direction (players st1 ! i)) \<noteq> 0
          then ebind (movePlayer depth st1 i) (\<lambda>st2.
                 Inr (updPlayer st2 i (\<lambda>p. p\<lparr>lastMoveTime := currentTime\<rparr>), snd sr1))
          else Inr sr1)
      else Inr (st, r))"

definition updatePlayers :: "nat \<Rightarrow> game \<Rightarrow> int \<Rightarrow> rng \<Rightarrow> js_error + game \<times> rng" where
  "updatePlayers depth st currentTime r =
     forOf [0..<length (players st)] (st, r) (updatePlayer depth currentTime)"

subsection \<open>End of the game\<close>

text \<open>
  \<^verbatim>\<open>this.players.sort((a, b) => b.territory.size - a.territory.size)\<close> sorts the array
  itself; the sort is stable. The rest of \<^verbatim>\<open>showGameOver\<close> writes the page.
\<close>

definition showGameOver :: "game \<Rightarrow> game" where
  "showGameOver st =
     st\<lparr>players := sort_key (\<lambda>p. - int (length (territory p))) (players st)\<rparr>"

text \<open>\<open>now\<close> is the value of \<^verbatim>\<open>Date.now()\<close> that \<^verbatim>\<open>checkGameEnd\<close> reads.\<close>

definition checkGameEnd :: "game \<Rightarrow> int \<Rightarrow> game" where
  "checkGameEnd st now =
     (let alivePlayers = filter alive (players st);
          timeElapsed = now - gameStartTime st in
      if length alivePlayers \<le> 1 \<or> timeElapsed \<ge> gameTimeLimit
      then showGameOver (st\<lparr>gameRunning := False\<rparr>)
      else st)"

text \<open>
  One animation frame. \<open>currentTime\<close> is the \<^verbatim>\<open>Date.now()\<close> of \<^verbatim>\<open>gameLoop\<close>, \<open>now\<close>
  the later one of \<^verbatim>\<open>checkGameEnd\<close>. \<^verbatim>\<open>render\<close> draws and changes no field.
\<close>

definition gameLoop :: "nat \<Rightarrow> game \<Rightarrow> int \<Rightarrow> int \<Rightarrow> rng \<Rightarrow> js_error + game \<times> rng" where
  "gameLoop depth st currentTime now r =
     (if gameRunning st
      then ebind (updatePlayers depth st currentTime r) (\<lambda>sr.
             Inr (checkGameEnd (fst sr) now, snd sr))
      else Inr (st, r))"

text \<open>The \<^verbatim>\<open>keydown\<close> listener; \<^verbatim>\<open>this.players[0]\<close> of an empty array is \<^verbatim>\<open>undefined\<close>.\<close>

definition keydown :: "game \<Rightarrow> string \<Rightarrow> js_error + game" where
  "keydown st key =
     (if \<not> gameRunning st then Inr st
      else if players st = [] then Inl TypeError
      else
        let player = players st ! 0 in
        if \<not> alive player then Inr st
        else
          let newDirection =
                (if key = ''ArrowUp'' then (if snd (direction player) \<noteq> 1 then (0, -1) else direction player)
                 else if key = ''ArrowDown'' then (if snd (direction player) \<noteq> -1 then (0, 1) else direction player)
                 else if key = ''ArrowLeft'' then (if fst (direction player) \<noteq> 1 then (-1, 0) else direction player)
                 else if key = ''ArrowRight'' then (if fst (direction player) \<noteq> -1 then (1, 0) else direction player)
                 else direction player) in
          Inr (updPlayer st 0 (\<lambda>p. p\<lparr>direction := newDirection\<rparr>)))"

subsection \<open>initializeGame\<close>

definition colors :: "string list" where
  "colors = [''#FF6B6B'', ''#4ECDC4'', ''#45B7D1'', ''#96CEB4'',
             ''#FFEAA7'', ''#DDA0DD'', ''#98D8C8'', ''#F7DC6F'']"

definition startPositions :: "game \<Rightarrow> cell list" where
  "startPositions st =
     [(5, 5), (mapWidth st - 6, 5), (5, mapHeight st - 6), (mapWidth st - 6, mapHeight st - 6)]"

definition squareOffsets :: "(int \<times> int) list" where
  "squareOffsets = concat (map (\<lambda>dy. map (\<lambda>dx. (dx, dy)) [-1, 0, 1]) [-1, 0, 1])"

text \<open>
  The body of the \<^verbatim>\<open>for (let i = 0; i < 4; i++)\<close> loop: the new player with its 3x3
  square, pushed on \<^verbatim>\<open>this.players\<close>. The write to the grid is inside the test
  \<^verbatim>\<open>isValidPosition(nx, ny)\<close>, so its row exists.
\<close>

definition createPlayer :: "nat \<Rightarrow> game \<times> rng \<Rightarrow> game \<times> rng" where
  "createPlayer i sr =
     (let st = fst sr;
          vr = (if i = 0 then (0, snd sr) else randomNext (snd sr));
          player = \<lparr>pid = i + 1,
                    px = fst (startPositions st ! i),
                    py = snd (startPositions st ! i),
                    direction = (0, 0),
                    color = colors ! i,
                    trail = [],
                    territory = [],
                    alive = True,
                    isHuman = (i = 0),
                    lastMoveTime = 0,
                    moveInterval = (if i = 0 then 100 else 150 + fst vr * 100)\<rparr>;
          gp = fold (\<lambda>d gp.
                 let nx = px player + fst d; ny = py player + snd d in
                 if isValidPosition st nx ny
                 then ((fst gp)((nx, ny) \<mapsto> pid player),
                       (snd gp)\<lparr>territory := Set_add (territory (snd gp)) (nx, ny)\<rparr>)
                 else gp) squareOffsets (grid st, player)
      in (st\<lparr>grid := fst gp, players := players st @ [snd gp]\<rparr>, snd vr))"

definition initializeGame :: "game \<Rightarrow> int \<Rightarrow> rng \<Rightarrow> game \<times> rng" where
  "initializeGame st now r =
     (let st0 = st\<lparr>grid := (\<lambda>c. if 0 \<le> fst c \<and> fst c < mapWidth st \<and> 0 \<le> snd c \<and> snd c < mapHeight st
                               then Some 0 else None),
                   players := []\<rparr>;
          sr = fold createPlayer [0..<4] (st0, r)
      in ((fst sr)\<lparr>gameRunning := True, gameStartTime := now\<rparr>, snd sr))"

definition restart :: "game \<Rightarrow> int \<Rightarrow> rng \<Rightarrow> game \<times> rng" where
  "restart st now r = initializeGame st now r"

subsection \<open>Runs\<close>

text \<open>
  What the browser delivers to the game: animation frames, each with the two clock
  readings it makes, and key presses. A run handles the events in order and ends at the
  first uncaught error.
\<close>

datatype event = Frame int int | KeyDown string

fun run :: "nat \<Rightarrow> event list \<Rightarrow> game \<times> rng \<Rightarrow> js_error + game \<times> rng" where
  "run depth [] sr = Inr sr"
| "run depth (Frame currentTime now # evs) sr =
     ebind (gameLoop depth (fst sr) currentTime now (snd sr)) (run depth evs)"
| "run depth (KeyDown key # evs) sr =
     ebind (keydown (fst sr) key) (\<lambda>st. run depth evs (st, snd sr))"

section \<open>Continuous engine (class SmoothPaperIOGame): data model\<close>

text \<open>
  The second class has the same field and method names as the first; here they carry the
  suffix \<open>_s\<close>. Coordinates are JavaScript numbers, idealised as real numbers: rounding,
  infinities and \<^verbatim>\<open>NaN\<close> are outside the model. A polygon is the list of its points, and
  \<^verbatim>\<open>player.territory\<close> is an array of polygons.
\<close>

type_synonym point = "real \<times> real"

record player_s =
  id_s :: nat
  x_s :: real
  y_s :: real
  direction_s :: "int \<times> int"
  color_s :: string
  trail_s :: "point list"
  territory_s :: "point list list"
  alive_s :: bool
  isHuman_s :: bool
  speed :: real
  lastDirectionChange :: int
  aiTarget :: "point option"

record game_s =
  canvasWidth :: real
  canvasHeight :: real
  players_s :: "player_s list"
  gameRunning_s :: bool
  gameStartTime_s :: int
  lastFrameTime :: int

definition playerSpeed :: real where "playerSpeed = 120"
definition aiSpeed :: real where "aiSpeed = 100"
definition playerSize :: real where "playerSize = 8"
definition gameTimeLimit_s :: int where "gameTimeLimit_s = 180000"

definition updPlayer_s :: "game_s \<Rightarrow> nat \<Rightarrow> (player_s \<Rightarrow> player_s) \<Rightarrow> game_s" where
  "updPlayer_s st i f = st\<lparr>players_s := (players_s st)[i := f (players_s st ! i)]\<rparr>"

subsection \<open>Geometry\<close>

text \<open>
  A quotient by zero is an infinity or \<^verbatim>\<open>NaN\<close> in the source, which no real number stands
  for: it is \<open>None\<close>.
\<close>

definition jsDiv :: "real \<Rightarrow> real \<Rightarrow> real option" where
  "jsDiv a b = (if b = 0 then None else Some (a / b))"

definition distanceToLineSegment :: "real \<Rightarrow> real \<Rightarrow> point \<Rightarrow> point \<Rightarrow> real option" where
  "distanceToLineSegment ptx pty p1 p2 =
     (let dx = fst p2 - fst p1;
          dy = snd p2 - snd p1;
          len = sqrt (dx * dx + dy * dy) in
      if len = 0 then Some (sqrt ((ptx - fst p1)\<^sup>2 + (pty - snd p1)\<^sup>2))
      else
        case jsDiv ((ptx - fst p1) * dx + (pty - snd p1) * dy) (len * len) of
          None \<Rightarrow> None
        | Some q \<Rightarrow>
            let t = max 0 (min 1 q);
                projection = (fst p1 + t * dx, snd p1 + t * dy) in
            Some (sqrt ((ptx - fst projection)\<^sup>2 + (pty - snd projection)\<^sup>2)))"

text \<open>\<^verbatim>\<open>distance < threshold\<close> is false when the distance is not a number.\<close>

definition isPointNearTrail :: "real \<Rightarrow> real \<Rightarrow> point list \<Rightarrow> real \<Rightarrow> bool" where
  "isPointNearTrail x y tr threshold =
     list_ex (\<lambda>i. case distanceToLineSegment x y (tr ! i) (tr ! (i + 1)) of
                     None \<Rightarrow> False
                   | Some distance \<Rightarrow> distance < threshold)
       [0..<length tr - 1]"

text \<open>
  The loop \<^verbatim>\<open>for (let i = 0, j = polygon.length - 1; i < polygon.length; j = i++)\<close>.
  The quotient is evaluated only when the first conjunct holds, and then the two
  ordinates differ.
\<close>

definition isPointInPolygon :: "real \<Rightarrow> real \<Rightarrow> point list \<Rightarrow> bool" where
  "isPointInPolygon x y polygon =
     fold (\<lambda>i inside.
        let j = (if i = 0 then length polygon - 1 else i - 1);
            p_i = polygon ! i; p_j = polygon ! j in
        if ((snd p_i > y) \<noteq> (snd p_j > y))
           \<and> x < (fst p_j - fst p_i) * (y - snd p_i) / (snd p_j - snd p_i) + fst p_i
        then \<not> inside else inside)
       [0..<length polygon] False"

definition isInTerritory :: "player_s \<Rightarrow> real \<Rightarrow> real \<Rightarrow> bool" where
  "isInTerritory player x y = list_ex (\<lambda>terr. isPointInPolygon x y terr) (territory_s player)"

definition polygonArea :: "point list \<Rightarrow> real" where
  "polygonArea polygon =
     \<bar>fold (\<lambda>i area.
        let j = (i + 1) mod length polygon in
        area + fst (polygon ! i) * snd (polygon ! j) - fst (polygon ! j) * snd (polygon ! i))
       [0..<length polygon] 0\<bar> / 2"

definition calculateTerritoryArea :: "point list list \<Rightarrow> real" where
  "calculateTerritoryArea territories = fold (\<lambda>terr totalArea. totalArea + polygonArea terr) territories 0"

subsection \<open>closeTrail, eliminatePlayer, checkCollisions\<close>

definition findTerritoryConnection :: "player_s \<Rightarrow> point option" where
  "findTerritoryConnection player = Some (x_s player, y_s player)"

definition closeTrail :: "game_s \<Rightarrow> nat \<Rightarrow> game_s" where
  "closeTrail st i =
     (if length (trail_s (players_s st ! i)) < 3
      then updPlayer_s st i (\<lambda>p. p\<lparr>trail_s := []\<rparr>)
      else
        let st1 = updPlayer_s st i (\<lambda>p. p\<lparr>trail_s := trail_s p @ [(x_s p, y_s p)]\<rparr>);
            connectionPoint = findTerritoryConnection (players_s st1 ! i);
            st2 = (if connectionPoint \<noteq> None
                   then updPlayer_s st1 i (\<lambda>p. p\<lparr>territory_s := territory_s p @ [trail_s p]\<rparr>)
                   else st1)
        in updPlayer_s st2 i (\<lambda>p. p\<lparr>trail_s := []\<rparr>))"

definition eliminatePlayer_s :: "game_s \<Rightarrow> nat \<Rightarrow> game_s" where
  "eliminatePlayer_s st i =
     updPlayer_s st i (\<lambda>p. p\<lparr>alive_s := False, trail_s := [], direction_s := (0, 0)\<rparr>)"

text \<open>
  The loop over \<^verbatim>\<open>otherPlayer\<close> inside \<^verbatim>\<open>checkCollisions\<close>, for the player at index \<open>i\<close>
  and the remaining indices \<open>js\<close>; \<^verbatim>\<open>break\<close> ends it.
\<close>

fun collideOthers :: "nat \<Rightarrow> nat list \<Rightarrow> game_s \<Rightarrow> game_s" where
  "collideOthers i [] st = st"
| "collideOthers i (j # js) st =
     (let player = players_s st ! i; otherPlayer = players_s st ! j in
      if id_s otherPlayer = id_s player \<or> \<not> alive_s otherPlayer then collideOthers i js st
      else if isPointNearTrail (x_s player) (y_s player) (trail_s otherPlayer) playerSize
      then eliminatePlayer_s st i
      else collideOthers i js st)"

text \<open>The body of the outer loop of \<^verbatim>\<open>checkCollisions\<close> for the player at index \<open>i\<close>.\<close>

definition checkCollision :: "nat \<Rightarrow> game_s \<Rightarrow> game_s" where
  "checkCollision i st =
     (let player = players_s st ! i in
      if \<not> alive_s player then st
      else if x_s player < 0 \<or> x_s player > canvasWidth st
              \<or> y_s player < 0 \<or> y_s player > canvasHeight st
      then eliminatePlayer_s st i
      else
        let st1 = collideOthers i [0..<length (players_s st)] st;
            player1 = players_s st1 ! i in
        if length (trail_s player1) > 10
        then
          let checkTrail = take (length (trail_s player1) - 5) (trail_s player1) in
          if isPointNearTrail (x_s player1) (y_s player1) checkTrail playerSize
          then eliminatePlayer_s st1 i
          else st1
        else st1)"

definition checkCollisions :: "game_s \<Rightarrow> game_s" where
  "checkCollisions st = fold checkCollision [0..<length (players_s st)] st"

subsection \<open>updatePlayers\<close>

definition updatePlayer_s :: "real \<Rightarrow> nat \<Rightarrow> game_s \<Rightarrow> game_s" where
  "updatePlayer_s deltaTime i st =
     (let player = players_s st ! i in
      if \<not> alive_s player \<or> (fst (direction_s player) = 0 \<and> snd (direction_s player) = 0) then st
      else
        let oldX = x_s player;
            oldY = y_s player;
            st1 = updPlayer_s st i (\<lambda>p. p\<lparr>x_s := x_s p + real_of_int (fst (direction_s p)) * speed p * deltaTime,
                                           y_s := y_s p + real_of_int (snd (direction_s p)) * speed p * deltaTime\<rparr>);
            player1 = players_s st1 ! i in
        if \<not> isInTerritory player1 (x_s player1) (y_s player1)
        then
          let distance = sqrt ((x_s player1 - oldX)\<^sup>2 + (y_s player1 - oldY)\<^sup>2) in
          if distance > 2
          then updPlayer_s st1 i (\<lambda>p. p\<lparr>trail_s := trail_s p @ [(oldX, oldY)]\<rparr>)
          else st1
        else if length (trail_s player1) > 0 then closeTrail st1 i
        else st1)"

definition updatePlayers_s :: "game_s \<Rightarrow> real \<Rightarrow> game_s" where
  "updatePlayers_s st deltaTime = fold (updatePlayer_s deltaTime) [0..<length (players_s st)] st"

subsection \<open>The AI of the continuous engine\<close>

definition isPositionSafe :: "game_s \<Rightarrow> player_s \<Rightarrow> real \<Rightarrow> real \<Rightarrow> bool" where
  "isPositionSafe st player x y =
     (if x < 10 \<or> x > canvasWidth st - 10 \<or> y < 10 \<or> y > canvasHeight st - 10 then False
      else if list_ex (\<lambda>otherPlayer.
                \<not> (id_s otherPlayer = id_s player \<or> \<not> alive_s otherPlayer)
                \<and> isPointNearTrail x y (trail_s otherPlayer) 15) (players_s st)
      then False
      else if isPointNearTrail x y (trail_s player) 10 then False
      else True)"

definition isAIInDanger :: "game_s \<Rightarrow> player_s \<Rightarrow> bool" where
  "isAIInDanger st player =
     (let lookAhead = 30;
          testX = x_s player + real_of_int (fst (direction_s player)) * lookAhead;
          testY = y_s player + real_of_int (snd (direction_s player)) * lookAhead in
      \<not> isPositionSafe st player testX testY)"

text \<open>The loop state is the pair of \<^verbatim>\<open>bestDirection\<close> (\<open>None\<close> for \<^verbatim>\<open>null\<close>) and \<^verbatim>\<open>bestScore\<close>.\<close>

definition findBestAIDirection :: "game_s \<Rightarrow> player_s \<Rightarrow> (int \<times> int) list \<Rightarrow> (int \<times> int) option" where
  "findBestAIDirection st player dirs =
     fst (fold (\<lambda>dir best.
        let testX = x_s player + real_of_int (fst dir) * 100;
            testY = y_s player + real_of_int (snd dir) * 100;
            score0 = fold (\<lambda>otherPlayer score.
                       if id_s otherPlayer = id_s player then score
                       else
                         let distance = sqrt ((testX - x_s otherPlayer)\<^sup>2 + (testY - y_s otherPlayer)\<^sup>2) in
                         score + min (distance / 100) 1) (players_s st) 0;
            centerX = canvasWidth st / 2;
            centerY = canvasHeight st / 2;
            distanceToCenter = sqrt ((testX - centerX)\<^sup>2 + (testY - centerY)\<^sup>2);
            score = (if testX < 50 \<or> testX > canvasWidth st - 50 \<or> testY < 50 \<or> testY > canvasHeight st - 50
                     then score0 + (1 - distanceToCenter / 400) else score0) in
        if score > snd best then (Some dir, score) else best) dirs (None, -1))"

definition updateAIDirection :: "game_s \<Rightarrow> nat \<Rightarrow> rng \<Rightarrow> js_error + game_s \<times> rng" where
  "updateAIDirection st i r =
     (let player = players_s st ! i;
          safeDirections = filter (\<lambda>dir.
             if fst dir = - fst (direction_s player) \<and> snd dir = - snd (direction_s player) then False
             else
               let testX = x_s player + real_of_int (fst dir) * 50;
                   testY = y_s player + real_of_int (snd dir) * 50 in
               isPositionSafe st player testX testY) directions in
      if length safeDirections > 0
      then
        (case findBestAIDirection st player safeDirections of
           Some bestDirection \<Rightarrow> Inr (updPlayer_s st i (\<lambda>p. p\<lparr>direction_s := bestDirection\<rparr>), r)
         | None \<Rightarrow>
             let vr = randomNext r in
             ebind (randomElement safeDirections (fst vr)) (\<lambda>d.
               Inr (updPlayer_s st i (\<lambda>p. p\<lparr>direction_s := d\<rparr>), snd vr)))
      else if length (trail_s player) = 0
      then
        let vr = randomNext r in
        ebind (randomElement directions (fst vr)) (\<lambda>d.
          Inr (updPlayer_s st i (\<lambda>p. p\<lparr>direction_s := d\<rparr>), snd vr))
      else Inr (st, r))"

text \<open>The body of the loop of \<^verbatim>\<open>updateAI(currentTime)\<close> for the player at index \<open>i\<close>.\<close>

definition updateAIPlayer_s :: "int \<Rightarrow> nat \<Rightarrow> game_s \<times> rng \<Rightarrow> js_error + game_s \<times> rng" where
  "updateAIPlayer_s currentTime i sr =
     (let st = fst sr; r = snd sr in
      if \<not> alive_s (players_s st ! i) \<or> isHuman_s (players_s st ! i) then Inr (st, r)
      else
        let vr = randomNext r in
        ebind (if real_of_int (currentTime - lastDirectionChange (players_s st ! i)) > 1000 + fst vr * 2000
               then ebind (updateAIDirection st i (snd vr)) (\<lambda>sr1.
                      Inr (updPlayer_s (fst sr1) i (\<lambda>p. p\<lparr>lastDirectionChange := currentTime\<rparr>), snd sr1))
               else Inr (st, snd vr)) (\<lambda>sr2.
          if isAIInDanger (fst sr2) (players_s (fst sr2) ! i)
          then ebind (updateAIDirection (fst sr2) i (snd sr2)) (\<lambda>sr3.
                 Inr (updPlayer_s (fst sr3) i (\<lambda>p. p\<lparr>lastDirectionChange := currentTime\<rparr>), snd sr3))
          else Inr sr2))"

definition updateAI_s :: "game_s \<Rightarrow> int \<Rightarrow> rng \<Rightarrow> js_error + game_s \<times> rng" where
  "updateAI_s st currentTime r =
     forOf [0..<length (players_s st)] (st, r) (updateAIPlayer_s currentTime)"

subsection \<open>End of the game, frame, input, start\<close>

text \<open>
  \<^verbatim>\<open>[...this.players].sort(...)\<close>: a sorted copy, by descending area. The function
  returns the ranking it shows; \<^verbatim>\<open>winner.isHuman\<close> of an empty ranking is a
  \<^verbatim>\<open>TypeError\<close>.
\<close>

definition showGameOver_s :: "game_s \<Rightarrow> js_error + game_s \<times> player_s list" where
  "showGameOver_s st =
     (let sortedPlayers = sort_key (\<lambda>p. - calculateTerritoryArea (territory_s p)) (players_s st) in
      if sortedPlayers = [] then Inl TypeError else Inr (st, sortedPlayers))"

definition checkGameEnd_s :: "game_s \<Rightarrow> int \<Rightarrow> js_error + game_s" where
  "checkGameEnd_s st now =
     (let alivePlayers = filter alive_s (players_s st);
          timeElapsed = now - gameStartTime_s st in
      if length alivePlayers \<le> 1 \<or> timeElapsed \<ge> gameTimeLimit_s
      then ebind (showGameOver_s (st\<lparr>gameRunning_s := False\<rparr>)) (\<lambda>sp. Inr (fst sp))
      else Inr st)"

text \<open>\<^verbatim>\<open>updateTimer\<close> and \<^verbatim>\<open>render\<close> write the page and change no field.\<close>

definition gameLoop_s :: "game_s \<Rightarrow> int \<Rightarrow> int \<Rightarrow> rng \<Rightarrow> js_error + game_s \<times> rng" where
  "gameLoop_s st currentTime now r =
     (let deltaTime = real_of_int (currentTime - lastFrameTime st) / 1000;
          st0 = st\<lparr>lastFrameTime := currentTime\<rparr> in
      if gameRunning_s st0
      then
        let st1 = updatePlayers_s st0 deltaTime;
            st2 = checkCollisions st1 in
        ebind (updateAI_s st2 currentTime r) (\<lambda>sr.
        ebind (checkGameEnd_s (fst sr) now) (\<lambda>st3.
          Inr (st3, snd sr)))
      else Inr (st0, r))"

text \<open>\<open>keys k\<close> is the truth value of \<^verbatim>\<open>keys[k]\<close>.\<close>

definition handleInput :: "game_s \<Rightarrow> (string \<Rightarrow> bool) \<Rightarrow> js_error + game_s" where
  "handleInput st keys =
     (if \<not> gameRunning_s st then Inr st
      else if players_s st = [] then Inl TypeError
      else
        let player = players_s st ! 0 in
        if \<not> alive_s player then Inr st
        else
          let newDirection =
                (if keys ''ArrowUp'' \<and> snd (direction_s player) \<noteq> 1 then (0, -1)
                 else if keys ''ArrowDown'' \<and> snd (direction_s player) \<noteq> -1 then (0, 1)
                 else if keys ''ArrowLeft'' \<and> fst (direction_s player) \<noteq> 1 then (-1, 0)
                 else if keys ''ArrowRight'' \<and> fst (direction_s player) \<noteq> -1 then (1, 0)
                 else direction_s player) in
          Inr (updPlayer_s st 0 (\<lambda>p. p\<lparr>direction_s := newDirection\<rparr>)))"

definition createInitialTerritory :: "player_s \<Rightarrow> player_s" where
  "createInitialTerritory player =
     (let radius = 40; segments = 16;
          points = map (\<lambda>i.
            let angle = (real i / segments) * pi * 2 in
            (x_s player + cos angle * radius, y_s player + sin angle * radius)) [0..<16] in
      player\<lparr>territory_s := [points]\<rparr>)"

definition startPositions_s :: "point list" where
  "startPositions_s = [(100, 100), (700, 100), (100, 500), (700, 500)]"

definition createPlayer_s :: "nat \<Rightarrow> player_s" where
  "createPlayer_s i =
     createInitialTerritory
       \<lparr>id_s = i + 1,
        x_s = fst (startPositions_s ! i),
        y_s = snd (startPositions_s ! i),
        direction_s = (0, 0),
        color_s = colors ! i,
        trail_s = [],
        territory_s = [],
        alive_s = True,
        isHuman_s = (i = 0),
        speed = (if i = 0 then playerSpeed else aiSpeed),
        lastDirectionChange = 0,
        aiTarget = None\<rparr>"

text \<open>\<open>now\<close> and \<open>now2\<close> are the two successive values of \<^verbatim>\<open>Date.now()\<close>.\<close>

definition initializeGame_s :: "game_s \<Rightarrow> int \<Rightarrow> int \<Rightarrow> game_s" where
  "initializeGame_s st now now2 =
     st\<lparr>players_s := map createPlayer_s [0..<4],
        gameRunning_s := True,
        gameStartTime_s := now,
        lastFrameTime := now2\<rparr>"

definition restart_s :: "game_s \<Rightarrow> int \<Rightarrow> int \<Rightarrow> game_s" where
  "restart_s st now now2 = initializeGame_s st now now2"

section \<open>Notions the properties are stated with\<close>

subsection \<open>Regions of the board\<close>

text \<open>
  Two cells are adjacent when they differ by one step in one coordinate. A cell is
  unowned when it is on the board and its owner is 0. Two unowned cells are in the same
  region when a path of adjacent unowned cells joins them: the 4-connected region of an unowned
  cell is the set of the cells sameRegion to it. A region is enclosed when it holds no
  border cell.
\<close>

definition adjacent :: "cell \<Rightarrow> cell \<Rightarrow> bool" where
  "adjacent a b =
     (b = (fst a + 1, snd a) \<or> b = (fst a - 1, snd a) \<or> b = (fst a, snd a + 1) \<or> b = (fst a, snd a - 1))"

definition conn :: "(cell \<Rightarrow> bool) \<Rightarrow> cell \<Rightarrow> cell \<Rightarrow> bool" where
  "conn A = (\<lambda>a b. adjacent a b \<and> A a \<and> A b)\<^sup>*\<^sup>*"

definition unowned :: "game \<Rightarrow> cell \<Rightarrow> bool" where
  "unowned st c = (isValidPosition st (fst c) (snd c) \<and> grid st c = Some 0)"

definition sameRegion :: "game \<Rightarrow> cell \<Rightarrow> cell \<Rightarrow> bool" where
  "sameRegion st = conn (unowned st)"

definition isBorder :: "game \<Rightarrow> cell \<Rightarrow> bool" where
  "isBorder st c = (fst c = 0 \<or> fst c = mapWidth st - 1 \<or> snd c = 0 \<or> snd c = mapHeight st - 1)"

definition enclosed :: "game \<Rightarrow> cell \<Rightarrow> bool" where
  "enclosed st c = (\<forall>d. sameRegion st c d \<longrightarrow> \<not> isBorder st d)"

text \<open>
  The invariant of the search loop, started at \<open>s\<close> with the visited set \<open>V0\<close>, where
  \<open>A\<close> holds of the cells the search may enter.
\<close>

definition dfs_inv ::
  "(cell \<Rightarrow> bool) \<Rightarrow> cell list \<Rightarrow> cell \<Rightarrow> cell list \<Rightarrow> cell list \<Rightarrow> cell list \<Rightarrow> bool" where
  "dfs_inv A V0 s stack region visited \<longleftrightarrow>
     set visited = set V0 \<union> set region
     \<and> (\<forall>d \<in> set region. A d \<and> conn A s d)
     \<and> (\<forall>e \<in> set stack. A e \<longrightarrow> conn A s e)
     \<and> (\<forall>d \<in> set region. \<forall>e. adjacent d e \<and> A e \<longrightarrow> e \<in> set region \<or> e \<in> set stack)
     \<and> (s \<in> set region \<or> s \<in> set stack)"

text \<open>The cell a player steps to, and its trail once the cell it leaves is recorded.\<close>

definition nextCell :: "player \<Rightarrow> cell" where
  "nextCell p = (px p + fst (direction p), py p + snd (direction p))"

definition trailAfterStep :: "player \<Rightarrow> cell list" where
  "trailAfterStep p =
     (if Set_has (territory p) (px p, py p) then trail p else trail p @ [(px p, py p)])"

text \<open>What a claim leaves alone, and the invariant of the loop over the board.\<close>

definition frame :: "game \<Rightarrow> game \<Rightarrow> nat \<Rightarrow> bool" where
  "frame st st' i \<longleftrightarrow>
     mapWidth st' = mapWidth st \<and> mapHeight st' = mapHeight st
     \<and> gameRunning st' = gameRunning st \<and> gameStartTime st' = gameStartTime st
     \<and> length (players st') = length (players st)
     \<and> (\<forall>j. j \<noteq> i \<longrightarrow> players st' ! j = players st ! j)
     \<and> (\<exists>T. players st' ! i = (players st ! i)\<lparr>territory := T\<rparr>)"

definition ff_inv :: "game \<Rightarrow> nat \<Rightarrow> cell set \<Rightarrow> game \<Rightarrow> cell list \<Rightarrow> bool" where
  "ff_inv st0 i D st visited \<longleftrightarrow>
     frame st0 st i
     \<and> (\<forall>c \<in> set visited. unowned st0 c)
     \<and> (\<forall>a \<in> set visited. \<forall>b. sameRegion st0 a b \<longrightarrow> b \<in> set visited)
     \<and> (\<forall>c. grid st c = (if c \<in> set visited \<and> enclosed st0 c
                           then Some (pid (players st0 ! i)) else grid st0 c))
     \<and> set (territory (players st ! i))
         = set (territory (players st0 ! i)) \<union> {c \<in> set visited. enclosed st0 c}
     \<and> (\<forall>c \<in> D. unowned st0 c \<longrightarrow> c \<in> set visited)"

text \<open>
  The rows of the cells the players stand on and of their trail cells exist; the numbers
  of the random stream lie in \<open>[0, 1)\<close>, as those of \<^verbatim>\<open>Math.random()\<close> do; and from one
  state to a later one every player keeps its index and id and its territory set only
  gains members.
\<close>

definition rowsOk :: "game \<Rightarrow> bool" where
  "rowsOk st \<longleftrightarrow>
     (\<forall>p \<in> set (players st).
        0 \<le> py p \<and> py p < mapHeight st
        \<and> (\<forall>pos \<in> set (trail p). 0 \<le> snd pos \<and> snd pos < mapHeight st))"

definition rngOk :: "rng \<Rightarrow> bool" where
  "rngOk r \<longleftrightarrow> (\<forall>n. 0 \<le> r n \<and> r n < 1)"

definition grows :: "game \<Rightarrow> game \<Rightarrow> bool" where
  "grows st st' \<longleftrightarrow>
     mapWidth st' = mapWidth st \<and> mapHeight st' = mapHeight st
     \<and> gameRunning st' = gameRunning st \<and> gameStartTime st' = gameStartTime st
     \<and> length (players st') = length (players st)
     \<and> (\<forall>j < length (players st).
           pid (players st' ! j) = pid (players st ! j)
           \<and> set (territory (players st ! j)) \<subseteq> set (territory (players st' ! j)))"

text \<open>The same for players found by their id, in whatever order the array holds them.\<close>

definition terrGrows :: "game \<Rightarrow> game \<Rightarrow> bool" where
  "terrGrows st st' \<longleftrightarrow>
     (\<forall>p \<in> set (players st). \<exists>p' \<in> set (players st').
        pid p' = pid p \<and> set (territory p) \<subseteq> set (territory p'))"

text \<open>
  Every cell with a nonzero owner outside the set \<open>S\<close> keeps its owner; only the player
  at index \<open>i\<close> differs; the cells the players stand on or have in their trails.
\<close>

definition keepsOwned :: "game \<Rightarrow> game \<Rightarrow> cell set \<Rightarrow> bool" where
  "keepsOwned st st' S \<longleftrightarrow>
     (\<forall>c ow. grid st c = Some ow \<and> ow \<noteq> 0 \<and> c \<notin> S \<longrightarrow> grid st' c = Some ow)"

definition onlyPlayer :: "game \<Rightarrow> game \<Rightarrow> nat \<Rightarrow> bool" where
  "onlyPlayer st st' i \<longleftrightarrow> (\<forall>j. j \<noteq> i \<longrightarrow> players st' ! j = players st ! j)"

definition trailCells :: "game \<Rightarrow> cell set" where
  "trailCells st = (\<Union>p \<in> set (players st). insert (px p, py p) (set (trail p)))"

subsection \<open>A small board\<close>

text \<open>
  A 5x5 board with two players. Player 1 owns (1,1) and (1,2), has walked from (1,2)
  over (2,2) to (2,1) and heads for (1,1). Player 2 owns (2,0), (3,0), (3,1) and (1,3),
  has walked from (3,1) over (3,2) and (3,3) to (2,3) and heads for (1,3).
\<close>

definition exP :: player where
  "exP = \<lparr>pid = 1, px = 2, py = 1, direction = (-1, 0), color = ''#FF6B6B'',
           trail = [(2, 2)], territory = [(1, 1), (1, 2)], alive = True, isHuman = True,
           lastMoveTime = 100, moveInterval = 100\<rparr>"

definition exQ :: player where
  "exQ = \<lparr>pid = 2, px = 2, py = 3, direction = (-1, 0), color = ''#4ECDC4'',
           trail = [(3, 2), (3, 3)], territory = [(2, 0), (3, 0), (3, 1), (1, 3)], alive = True,
           isHuman = False, lastMoveTime = 0, moveInterval = 150\<rparr>"

definition exGame :: game where
  "exGame = \<lparr>mapWidth = 5, mapHeight = 5,
     grid = (\<lambda>c. if c \<in> set [(1, 1), (1, 2)] then Some 1
                  else if c \<in> set [(2, 0), (3, 0), (3, 1), (1, 3)] then Some 2
                  else if 0 \<le> fst c \<and> fst c < 5 \<and> 0 \<le> snd c \<and> snd c < 5 then Some 0
                  else None),
     players = [exP, exQ], gameRunning = True, gameStartTime = 0\<rparr>"

text \<open>The same board in the middle of the claim of player 2, its trail just painted.\<close>

definition exGameClaim :: game where
  "exGameClaim = exGame\<lparr>
     grid := (\<lambda>c. if c \<in> set [(3, 2), (3, 3), (2, 3)] then Some 2 else grid exGame c),
     players := [exP, exQ\<lparr>px := 1, py := 3, trail := [(3, 2), (3, 3), (2, 3)],
                           territory := territory exQ @ [(3, 2), (3, 3), (2, 3)]\<rparr>]\<rparr>"

subsection \<open>Collisions of the continuous engine\<close>

text \<open>
  The player at index \<open>i\<close> collides in a state when it is outside the canvas, or
  \<^verbatim>\<open>isPointNearTrail\<close> holds of its position, the trail of a living player with another
  id and 8, or its own trail has more than 10 points and \<^verbatim>\<open>isPointNearTrail\<close> holds of
  its position, that trail without its last 5 points and 8: the tests the source makes.
  \<open>stateAt g k\<close> is the state the loop of \<^verbatim>\<open>checkCollisions\<close> has reached when it comes
  to the player at index \<open>k\<close>. Then a canvas with two players: the first has
  stepped over the right edge with a trail of two points, the second has a trail of three.
\<close>

definition collides :: "game_s \<Rightarrow> nat \<Rightarrow> bool" where
  "collides st i \<longleftrightarrow>
     (let p = players_s st ! i in
      (x_s p < 0 \<or> x_s p > canvasWidth st \<or> y_s p < 0 \<or> y_s p > canvasHeight st)
      \<or> (\<exists>q \<in> set (players_s st). id_s q \<noteq> id_s p \<and> alive_s q
            \<and> isPointNearTrail (x_s p) (y_s p) (trail_s q) 8)
      \<or> (length (trail_s p) > 10
            \<and> isPointNearTrail (x_s p) (y_s p) (take (length (trail_s p) - 5) (trail_s p)) 8))"

definition stateAt :: "game_s \<Rightarrow> nat \<Rightarrow> game_s" where
  "stateAt g k = fold checkCollision [0..<k] g"

definition exS1 :: player_s where
  "exS1 = \<lparr>id_s = 1, x_s = 805, y_s = 100, direction_s = (1, 0), color_s = ''#FF6B6B'',
            trail_s = [(790, 100), (800, 100)],
            territory_s = [[(660, 60), (740, 60), (740, 140), (660, 140)]],
            alive_s = True, isHuman_s = True, speed = 120, lastDirectionChange = 0,
            aiTarget = None\<rparr>"

definition exS2 :: player_s where
  "exS2 = \<lparr>id_s = 2, x_s = 130, y_s = 500, direction_s = (0, -1), color_s = ''#4ECDC4'',
            trail_s = [(150, 500), (150, 560), (130, 560)],
            territory_s = [[(60, 460), (140, 460), (140, 540), (60, 540)]],
            alive_s = True, isHuman_s = False, speed = 100, lastDirectionChange = 0,
            aiTarget = None\<rparr>"

definition exGame_s :: game_s where
  "exGame_s = \<lparr>canvasWidth = 800, canvasHeight = 600, players_s = [exS1, exS2],
                 gameRunning_s = True, gameStartTime_s = 0, lastFrameTime = 0\<rparr>"

subsection \<open>Frames and runs of the continuous engine\<close>

text \<open>
  From one state to a later one every player keeps its index and id and its list of
  polygons is extended at the end. The events are the animation frames and the key
  events; the listeners share the object \<^verbatim>\<open>keys\<close>, which is part of the state of a run.
\<close>

definition grows_s :: "game_s \<Rightarrow> game_s \<Rightarrow> bool" where
  "grows_s st st' \<longleftrightarrow>
     length (players_s st') = length (players_s st)
     \<and> gameRunning_s st' = gameRunning_s st \<and> gameStartTime_s st' = gameStartTime_s st
     \<and> (\<forall>j < length (players_s st).
           id_s (players_s st' ! j) = id_s (players_s st ! j)
           \<and> (\<exists>new. territory_s (players_s st' ! j) = territory_s (players_s st ! j) @ new))"

datatype event_s = Frame_s int int | KeyDown_s string | KeyUp_s string

fun run_s :: "event_s list \<Rightarrow> game_s \<times> rng \<times> (string \<Rightarrow> bool)
              \<Rightarrow> js_error + game_s \<times> rng \<times> (string \<Rightarrow> bool)" where
  "run_s [] s = Inr s"
| "run_s (Frame_s currentTime now # evs) s =
     ebind (gameLoop_s (fst s) currentTime now (fst (snd s))) (\<lambda>sr.
       run_s evs (fst sr, snd sr, snd (snd s)))"
| "run_s (KeyDown_s key # evs) s =
     (let keys = (snd (snd s))(key := True) in
      ebind (handleInput (fst s) keys) (\<lambda>st. run_s evs (st, fst (snd s), keys)))"
| "run_s (KeyUp_s key # evs) s =
     run_s evs (fst s, fst (snd s), (snd (snd s))(key := False))"

subsection \<open>More example states\<close>

text \<open>A random stream, and the two example games once they have ended.\<close>

definition exRng :: rng where
  "exRng = (\<lambda>n. 1 / 2)"

definition exStopped :: game where
  "exStopped = exGame\<lparr>gameRunning := False\<rparr>"

definition exStopped_s :: game_s where
  "exStopped_s = exGame_s\<lparr>gameRunning_s := False\<rparr>"

text \<open>
  Two frames on the small board, at the times 150 and 200, and the owner of a cell after
  them.
\<close>

definition exFrame1 :: "js_error + game \<times> rng" where
  "exFrame1 = gameLoop 1 exGame 150 150 exRng"

definition exFrame2 :: "js_error + game \<times> rng" where
  "exFrame2 = ebind exFrame1 (\<lambda>sr. gameLoop 1 (fst sr) 200 200 (snd sr))"

definition ownerAfter :: "js_error + game \<times> rng \<Rightarrow> cell \<Rightarrow> nat option" where
  "ownerAfter m c = (case m of Inl e \<Rightarrow> None | Inr sr \<Rightarrow> grid (fst sr) c)"

subsection \<open>A game from its start\<close>

text \<open>
  A canvas of 80 by 70, so a board of 8 by 7 cells; the game is created at time 1000 and
  \<^verbatim>\<open>Math.random()\<close> returns the numbers of \<open>exDraws\<close>, then 1/2. There is a frame every
  100 ms and the human player is steered by key presses: \<open>exEvents1\<close> up to the frame at
  1900, \<open>exEvents2\<close> the key press and the frame after it. \<open>holders\<close> are the ids of the
  players whose territory set has a cell.
\<close>

definition rngOf :: "real list \<Rightarrow> rng" where
  "rngOf xs = (\<lambda>n. if n < length xs then xs ! n else 1 / 2)"

definition exDraws :: "real list" where
  "exDraws = [99 / 100, 99 / 100, 99 / 100, 1 / 8, 1 / 8, 1 / 8, 1 / 2, 3 / 4, 3 / 4, 3 / 4,
              1 / 2, 1 / 2, 19 / 20, 1 / 4]"

definition exCanvas :: game where
  "exCanvas = \<lparr>mapWidth = 8, mapHeight = 7, grid = (\<lambda>c. None), players = [],
                gameRunning = False, gameStartTime = 0\<rparr>"

definition exStart :: "game \<times> rng" where
  "exStart = initializeGame exCanvas 1000 (rngOf exDraws)"

definition exEvents1 :: "event list" where
  "exEvents1 =
     [Frame 1000 1000,
      KeyDown ''ArrowRight'', Frame 1100 1100,
      KeyDown ''ArrowUp'', Frame 1200 1200, Frame 1300 1300,
      KeyDown ''ArrowRight'', Frame 1400 1400,
      KeyDown ''ArrowDown'', Frame 1500 1500,
      KeyDown ''ArrowLeft'', Frame 1600 1600, Frame 1700 1700,
      KeyDown ''ArrowUp'', Frame 1800 1800,
      KeyDown ''ArrowLeft'', Frame 1900 1900]"

definition exEvents2 :: "event list" where
  "exEvents2 = [KeyDown ''ArrowDown'', Frame 2000 2000]"

definition exPlay1 :: "js_error + game \<times> rng" where
  "exPlay1 = run 1 exEvents1 exStart"

definition holders :: "game \<Rightarrow> cell \<Rightarrow> nat list" where
  "holders st c = map pid (filter (\<lambda>p. Set_has (territory p) c) (players st))"

definition cellAt :: "js_error + game \<times> rng \<Rightarrow> cell \<Rightarrow> (nat option \<times> nat list) option" where
  "cellAt m c = (case m of Inl e \<Rightarrow> None | Inr sr \<Rightarrow> Some (grid (fst sr) c, holders (fst sr) c))"

definition beforeAfter :: "js_error + game \<times> rng \<Rightarrow> event list \<Rightarrow> cell
    \<Rightarrow> (nat option \<times> nat list) option \<times> (nat option \<times> nat list) option" where
  "beforeAfter m evs c = (cellAt m c, cellAt (ebind m (run 1 evs)) c)"

subsection \<open>The board of a claim\<close>

text \<open>
  The board as the first loop of \<^verbatim>\<open>claimTerritory\<close> leaves it when the player at index
  \<open>i\<close> makes its step: the cells of its trail, with the cell it leaves, carry its id. The
  flood fill that follows takes the unowned cells of that board whose region is enclosed.
\<close>

definition painted :: "game \<Rightarrow> nat \<Rightarrow> game" where
  "painted st i =
     st\<lparr>grid := (\<lambda>c. if c \<in> set (trailAfterStep (players st ! i))
                       then Some (pid (players st ! i)) else grid st c)\<rparr>"

definition floodFilled :: "game \<Rightarrow> nat \<Rightarrow> cell set" where
  "floodFilled st i = {c. unowned (painted st i) c \<and> enclosed (painted st i) c}"

text \<open>
  The error a computation ended with, if it did. Then a canvas of 200 by 50, so a board
  of 20 by 5 cells, on which the start positions (5,5) and (14,5) lie below the last row;
  \<^verbatim>\<open>Math.random()\<close> returns 1/8 throughout. \<open>exLow\<close> is the state of the first frame of
  that game when \<^verbatim>\<open>updateAI\<close> has chosen the direction of the second player.
\<close>

definition raised :: "'e + 'a \<Rightarrow> 'e option" where
  "raised m = (case m of Inl e \<Rightarrow> Some e | Inr a \<Rightarrow> None)"

definition exEighth :: rng where
  "exEighth = (\<lambda>n. 1 / 8)"

definition exLowCanvas :: game where
  "exLowCanvas = \<lparr>mapWidth = 20, mapHeight = 5, grid = (\<lambda>c. None), players = [],
                   gameRunning = False, gameStartTime = 0\<rparr>"

definition exLow :: game where
  "exLow = (case updateAI (fst (initializeGame exLowCanvas 1000 exEighth)) 1
                   (snd (initializeGame exLowCanvas 1000 exEighth)) of
              Inl e \<Rightarrow> exLowCanvas | Inr sr \<Rightarrow> fst sr)"

subsection \<open>Distances to a trail\<close>

text \<open>
  The distance from \<open>(x, y)\<close> to a point, the point of a segment at the parameter \<open>t\<close>
  between 0 and 1, and what it means to be nearer than \<open>d\<close> to a trail: some point of
  some segment between two consecutive trail points is nearer than \<open>d\<close>. A trail of fewer
  than two points has no segment. \<open>collidesWithin st i d\<close> is the condition under which
  \<^verbatim>\<open>checkCollisions\<close> is to eliminate the player at index \<open>i\<close>, with \<open>d\<close> in the place of
  \<^verbatim>\<open>playerSize\<close>.

  The source computes every distance in double arithmetic and compares the rounded result
  with 8; the numbers here are real numbers and are not rounded. \<open>roundingMargin\<close> is the
  allowance for that: what is proved of a comparison of a distance with 8 is proved for
  distances that differ from 8 by more than the margin.
\<close>

definition pointDist :: "real \<Rightarrow> real \<Rightarrow> point \<Rightarrow> real" where
  "pointDist x y q = sqrt ((x - fst q)\<^sup>2 + (y - snd q)\<^sup>2)"

definition segmentPoint :: "point \<Rightarrow> point \<Rightarrow> real \<Rightarrow> point" where
  "segmentPoint p1 p2 t = (fst p1 + t * (fst p2 - fst p1), snd p1 + t * (snd p2 - snd p1))"

definition nearTrail :: "real \<Rightarrow> real \<Rightarrow> point list \<Rightarrow> real \<Rightarrow> bool" where
  "nearTrail x y tr d \<longleftrightarrow>
     (\<exists>i t. Suc i < length tr \<and> 0 \<le> t \<and> t \<le> 1
            \<and> pointDist x y (segmentPoint (tr ! i) (tr ! Suc i) t) < d)"

definition collidesWithin :: "game_s \<Rightarrow> nat \<Rightarrow> real \<Rightarrow> bool" where
  "collidesWithin st i d \<longleftrightarrow>
     (let p = players_s st ! i in
      (x_s p < 0 \<or> x_s p > canvasWidth st \<or> y_s p < 0 \<or> y_s p > canvasHeight st)
      \<or> (\<exists>q \<in> set (players_s st). id_s q \<noteq> id_s p \<and> alive_s q
            \<and> nearTrail (x_s p) (y_s p) (trail_s q) d)
      \<or> (length (trail_s p) > 10
            \<and> nearTrail (x_s p) (y_s p) (take (length (trail_s p) - 5) (trail_s p)) d))"

definition roundingMargin :: real where
  "roundingMargin = 1 / 1000000"

text \<open>
  Two more states of the canvas with two players. The second player has left its
  territory upwards and stands at (795,100). In \<open>exNear\<close> the first player is inside the
  canvas, heading left, and the second stands on its trail; in \<open>exOrder\<close> the first
  player has left the canvas over the right edge and the second stands on its trail.
\<close>

definition exA :: player_s where
  "exA = exS1\<lparr>x_s := 780, direction_s := (-1, 0), trail_s := [(800, 100), (790, 100)]\<rparr>"

definition exB :: player_s where
  "exB = exS2\<lparr>x_s := 795, y_s := 100, trail_s := [(795, 128), (795, 114)],
              territory_s := [[(760, 130), (840, 130), (840, 210), (760, 210)]]\<rparr>"

definition exNear :: game_s where
  "exNear = exGame_s\<lparr>players_s := [exA, exB]\<rparr>"

definition exOrder :: game_s where
  "exOrder = exGame_s\<lparr>players_s := [exS1, exB]\<rparr>"

section \<open>Properties of the grid engine\<close>

subsection \<open>isValidMove\<close>

lemma trailSome_iff: "trailSome tr x y \<longleftrightarrow> (x, y) \<in> set tr"
  by (force simp: trailSome_def list_ex_iff)

text \<open>
  C2. \<open>isValidMove\<close> is false exactly when the target is out of the board, or its
  owner is neither 0 nor the player's id, or it lies in the player's own trail, or it
  lies in the trail of a living player with another id. The function reads the state
  and returns a boolean only: the source assigns to nothing.
\<close>

theorem isValidMove_false_iff:
  "isValidMove st p x y = False \<longleftrightarrow>
     (x < 0 \<or> x \<ge> mapWidth st \<or> y < 0 \<or> y \<ge> mapHeight st)
     \<or> (grid st (x, y) \<noteq> Some 0 \<and> grid st (x, y) \<noteq> Some (pid p))
     \<or> (x, y) \<in> set (trail p)
     \<or> (\<exists>q \<in> set (players st). pid q \<noteq> pid p \<and> alive q \<and> (x, y) \<in> set (trail q))"
  by (auto simp: isValidMove_def Let_def trailSome_iff list_ex_iff)

theorem isValidMove_false_iff_witness:
  "isValidMove exGame exP 2 2 = False \<and> (2, 2) \<in> set (trail exP)"
  using isValidMove_false_iff [of exGame exP 2 2] by (simp add: exP_def)

subsection \<open>eliminatePlayer\<close>

lemma eliminatePlayer_eq:
  assumes "i < length (players st)"
  shows "eliminatePlayer (Suc depth) st i = Inr (updPlayer st i (\<lambda>p. p\<lparr>alive := False, trail := []\<rparr>))"
proof -
  let ?st1 = "updPlayer st i (\<lambda>p. p\<lparr>alive := False, trail := []\<rparr>)"
  have tr: "trail (players ?st1 ! i) = []"
    using assms by (simp add: updPlayer_def)
  have const: "forOf js ?st1 (\<lambda>j acc.
        if pid (players acc ! j) \<noteq> pid (players acc ! i) \<and> alive (players acc ! j)
        then forOf (trail (players acc ! i)) acc (\<lambda>trailPos acc2.
               if trailSome (trail (players acc2 ! j)) (fst trailPos) (snd trailPos)
               then eliminatePlayer depth acc2 j
               else Inr acc2)
        else Inr acc) = Inr ?st1" for js
    by (induction js) (simp_all add: tr)
  show ?thesis
    by (simp add: Let_def const)
qed

declare eliminatePlayer.simps [simp del]

text \<open>
  C6. With a stack frame to run in, \<open>eliminatePlayer\<close> returns: the player is dead and
  its trail empty, its position is as before, and nothing else has changed; no other
  player is touched, because the loop over \<^verbatim>\<open>player.trail\<close> runs on the trail that was
  just emptied.
\<close>

theorem eliminatePlayer_only_clears_player:
  assumes "i < length (players st)"
  shows "\<exists>st'. eliminatePlayer (Suc depth) st i = Inr st'
           \<and> \<not> alive (players st' ! i) \<and> trail (players st' ! i) = []
           \<and> px (players st' ! i) = px (players st ! i)
           \<and> py (players st' ! i) = py (players st ! i)
           \<and> length (players st') = length (players st)
           \<and> (\<forall>j. j \<noteq> i \<longrightarrow> players st' ! j = players st ! j)
           \<and> grid st' = grid st"
  using assms by (simp add: eliminatePlayer_eq updPlayer_def)

theorem eliminatePlayer_only_clears_player_witness:
  "0 < length (players exGame)
   \<and> (\<exists>st'. eliminatePlayer (Suc 0) exGame 0 = Inr st'
          \<and> \<not> alive (players st' ! 0) \<and> trail (players st' ! 0) = []
          \<and> players st' ! 1 = exQ)"
proof -
  have h: "0 < length (players exGame)"
    by (simp add: exGame_def)
  obtain st' where st': "eliminatePlayer (Suc 0) exGame 0 = Inr st'"
    "\<not> alive (players st' ! 0)" "trail (players st' ! 0) = []"
    "\<forall>j. j \<noteq> 0 \<longrightarrow> players st' ! j = players exGame ! j"
    using eliminatePlayer_only_clears_player [OF h, of 0] by blast
  have "players st' ! 1 = exQ"
    using st'(4) by (simp add: exGame_def)
  with h st'(1,2,3) show ?thesis by blast
qed

subsection \<open>The region search\<close>

lemma conn_refl: "conn A a a"
  by (simp add: conn_def)

lemma conn_step: "conn A a b \<Longrightarrow> adjacent b c \<Longrightarrow> A b \<Longrightarrow> A c \<Longrightarrow> conn A a c"
  unfolding conn_def by (rule rtranclp.rtrancl_into_rtrancl) auto

lemma conn_trans: "conn A a b \<Longrightarrow> conn A b c \<Longrightarrow> conn A a c"
  unfolding conn_def by (rule rtranclp_trans)

lemma adjacent_sym: "adjacent a b \<Longrightarrow> adjacent b a"
  by (cases a; cases b) (auto simp: adjacent_def)

lemma conn_sym: "conn A a b \<Longrightarrow> conn A b a"
  unfolding conn_def
proof (induction rule: rtranclp_induct)
  case base
  then show ?case by simp
next
  case (step y z)
  have "(\<lambda>a b. adjacent a b \<and> A a \<and> A b) z y"
    using step.hyps(2) by (auto dest: adjacent_sym)
  then show ?case
    using step.IH by (rule converse_rtranclp_into_rtranclp)
qed

lemma conn_closed:
  assumes "conn A s d" and "s \<in> R" and "\<And>a b. a \<in> R \<Longrightarrow> adjacent a b \<Longrightarrow> A a \<Longrightarrow> A b \<Longrightarrow> b \<in> R"
  shows "d \<in> R"
  using assms(1) unfolding conn_def
  by (induction rule: rtranclp_induct) (use assms(2,3) in auto)

lemma dfs_inv_skip:
  assumes inv: "dfs_inv A V0 s (e # stack) region visited"
    and e: "e \<in> set V0 \<union> set region \<or> \<not> A e"
    and A: "A s" "\<And>c. A c \<Longrightarrow> c \<notin> set V0"
  shows "dfs_inv A V0 s stack region visited"
proof -
  have e': "A e \<Longrightarrow> e \<in> set region"
    using e A(2) by blast
  have i4: "\<forall>d \<in> set region. \<forall>c. adjacent d c \<and> A c \<longrightarrow> c \<in> set region \<or> c \<in> set stack"
  proof (intro ballI allI impI)
    fix d c assume d: "d \<in> set region" and c: "adjacent d c \<and> A c"
    then have "c \<in> set region \<or> c \<in> set (e # stack)"
      using inv unfolding dfs_inv_def by blast
    then show "c \<in> set region \<or> c \<in> set stack"
      using e' c by auto
  qed
  have i5: "s \<in> set region \<or> s \<in> set stack"
  proof -
    have "s \<in> set region \<or> s \<in> set (e # stack)"
      using inv by (simp add: dfs_inv_def)
    then show ?thesis using e' A(1) by auto
  qed
  have i1: "set visited = set V0 \<union> set region"
    and i2: "\<forall>d \<in> set region. A d \<and> conn A s d"
    using inv by (simp_all add: dfs_inv_def)
  have i3: "\<forall>c \<in> set stack. A c \<longrightarrow> conn A s c"
    using inv by (simp add: dfs_inv_def)
  show ?thesis
    unfolding dfs_inv_def using i1 i2 i3 i4 i5 by blast
qed

lemma dfs_inv_push:
  assumes inv: "dfs_inv A V0 s ((x, y) # stack) region visited"
    and A: "A (x, y)"
  shows "dfs_inv A V0 s ((x, y - 1) # (x, y + 1) # (x - 1, y) # (x + 1, y) # stack)
           (Set_add region (x, y)) (Set_add visited (x, y))"
proof -
  let ?stack' = "(x, y - 1) # (x, y + 1) # (x - 1, y) # (x + 1, y) # stack"
  have vis: "set visited = set V0 \<union> set region"
    using inv by (simp add: dfs_inv_def)
  have reach: "conn A s (x, y)"
    using inv A by (simp add: dfs_inv_def)
  have r': "set (Set_add region (x, y)) = insert (x, y) (set region)"
    and v': "set (Set_add visited (x, y)) = insert (x, y) (set visited)"
    by (auto simp: Set_add_def Set_has_def)
  have nb: "adjacent (x, y) e \<Longrightarrow> e \<in> set ?stack'" for e
    by (auto simp: adjacent_def)
  have nb2: "e \<in> set ?stack' \<Longrightarrow> e \<notin> set stack \<Longrightarrow> adjacent (x, y) e" for e
    by (auto simp: adjacent_def)
  have i1: "set (Set_add visited (x, y)) = set V0 \<union> set (Set_add region (x, y))"
    using vis r' v' by auto
  have i2: "\<forall>d \<in> set (Set_add region (x, y)). A d \<and> conn A s d"
    using inv A reach r' by (auto simp: dfs_inv_def)
  have i3: "\<forall>e \<in> set ?stack'. A e \<longrightarrow> conn A s e"
  proof (intro ballI impI)
    fix e assume e: "e \<in> set ?stack'" and Ae: "A e"
    show "conn A s e"
    proof (cases "e \<in> set stack")
      case True
      then show ?thesis using inv Ae by (simp add: dfs_inv_def)
    next
      case False
      then have "adjacent (x, y) e" using e nb2 by blast
      with reach show ?thesis using A Ae by (rule conn_step)
    qed
  qed
  have i4: "\<forall>d \<in> set (Set_add region (x, y)). \<forall>e. adjacent d e \<and> A e \<longrightarrow>
              e \<in> set (Set_add region (x, y)) \<or> e \<in> set ?stack'"
  proof (intro ballI allI impI)
    fix d e assume d: "d \<in> set (Set_add region (x, y))" and e: "adjacent d e \<and> A e"
    show "e \<in> set (Set_add region (x, y)) \<or> e \<in> set ?stack'"
    proof (cases "d = (x, y)")
      case True
      then show ?thesis using e nb by blast
    next
      case False
      then have "d \<in> set region" using d r' by auto
      then have "e \<in> set region \<or> e \<in> set ((x, y) # stack)"
        using inv e unfolding dfs_inv_def by blast
      then show ?thesis using r' by auto
    qed
  qed
  have i5: "s \<in> set (Set_add region (x, y)) \<or> s \<in> set ?stack'"
  proof -
    have "s \<in> set region \<or> s \<in> set ((x, y) # stack)"
      using inv by (simp add: dfs_inv_def)
    then show ?thesis using r' by auto
  qed
  show ?thesis
    unfolding dfs_inv_def using i1 i2 i3 i4 i5 by blast
qed

declare getConnectedRegion_loop.simps [simp del]

lemma dfs_loop_inv:
  assumes "dfs_inv (\<lambda>c. unowned st c \<and> c \<notin> set V0) V0 s stack region visited"
    and "unowned st s" "s \<notin> set V0"
  shows "dfs_inv (\<lambda>c. unowned st c \<and> c \<notin> set V0) V0 s []
           (fst (getConnectedRegion_loop st stack region visited))
           (snd (getConnectedRegion_loop st stack region visited))"
  using assms
proof (induction st stack region visited rule: getConnectedRegion_loop.induct)
  case (1 st region visited)
  then show ?case by (simp add: getConnectedRegion_loop.simps(1))
next
  case (2 st x y stack region visited)
  let ?A = "\<lambda>c. unowned st c \<and> c \<notin> set V0"
  note inv = "2.prems"(1)
  have As: "?A s" using "2.prems"(2,3) by simp
  have vis: "set visited = set V0 \<union> set region"
    using inv by (simp add: dfs_inv_def)
  show ?case
  proof (cases "Set_has visited (x, y) \<or> Set_has region (x, y)")
    case True
    then have "(x, y) \<in> set V0 \<union> set region \<or> \<not> ?A (x, y)"
      using vis by (auto simp: Set_has_def)
    then have "dfs_inv ?A V0 s stack region visited"
      using inv As by (rule_tac dfs_inv_skip [where e = "(x, y)"]) auto
    then show ?thesis
      using True "2.IH"(1) "2.prems"(2,3) by (subst (1 2) getConnectedRegion_loop.simps(2)) simp
  next
    case False
    note nv = False
    show ?thesis
    proof (cases "x < 0 \<or> x \<ge> mapWidth st \<or> y < 0 \<or> y \<ge> mapHeight st")
      case True
      then have "\<not> ?A (x, y)"
        by (auto simp: unowned_def isValidPosition_def)
      then have "dfs_inv ?A V0 s stack region visited"
        using inv As by (rule_tac dfs_inv_skip [where e = "(x, y)"]) auto
      then show ?thesis
        using nv True "2.IH"(2) "2.prems"(2,3) by (subst (1 2) getConnectedRegion_loop.simps(2)) simp
    next
      case False
      note inb = False
      show ?thesis
      proof (cases "grid st (x, y) \<noteq> Some 0")
        case True
        then have "\<not> ?A (x, y)"
          by (auto simp: unowned_def)
        then have "dfs_inv ?A V0 s stack region visited"
          using inv As by (rule_tac dfs_inv_skip [where e = "(x, y)"]) auto
        then show ?thesis
          using nv inb True "2.IH"(3) "2.prems"(2,3) by (subst (1 2) getConnectedRegion_loop.simps(2)) simp
      next
        case False
        have "?A (x, y)"
          using inb False nv vis by (auto simp: unowned_def isValidPosition_def Set_has_def)
        then have "dfs_inv ?A V0 s ((x, y - 1) # (x, y + 1) # (x - 1, y) # (x + 1, y) # stack)
           (Set_add region (x, y)) (Set_add visited (x, y))"
          using inv by (rule_tac dfs_inv_push) auto
        then show ?thesis
          using nv inb False "2.IH"(4) "2.prems"(2,3) by (subst (1 2) getConnectedRegion_loop.simps(2)) simp
      qed
    qed
  qed
qed

lemma getConnectedRegion_spec:
  assumes s: "unowned st s" "s \<notin> set V0"
  shows "set (fst (getConnectedRegion st (fst s) (snd s) V0))
           = {d. conn (\<lambda>c. unowned st c \<and> c \<notin> set V0) s d}"
    and "set (snd (getConnectedRegion st (fst s) (snd s) V0))
           = set V0 \<union> {d. conn (\<lambda>c. unowned st c \<and> c \<notin> set V0) s d}"
proof -
  let ?A = "\<lambda>c. unowned st c \<and> c \<notin> set V0"
  let ?R = "fst (getConnectedRegion st (fst s) (snd s) V0)"
  let ?V = "snd (getConnectedRegion st (fst s) (snd s) V0)"
  have init: "dfs_inv ?A V0 s [s] [] V0"
    using s by (simp add: dfs_inv_def conn_refl)
  have fin: "dfs_inv ?A V0 s [] ?R ?V"
    unfolding getConnectedRegion_def
    using dfs_loop_inv [OF init s] by simp
  have i2: "\<forall>d \<in> set ?R. ?A d \<and> conn ?A s d"
    and i4: "\<forall>d \<in> set ?R. \<forall>e. adjacent d e \<and> ?A e \<longrightarrow> e \<in> set ?R \<or> e \<in> set []"
    and sR: "s \<in> set ?R \<or> s \<in> set []"
    and i1: "set ?V = set V0 \<union> set ?R"
    using fin unfolding dfs_inv_def by blast+
  have closed: "b \<in> set ?R" if "a \<in> set ?R" "adjacent a b" "?A a" "?A b" for a b
    using i4 that by fastforce
  have sup: "d \<in> set ?R" if "conn ?A s d" for d
    using that _ closed by (rule conn_closed) (use sR in simp)
  show eq: "set ?R = {d. conn ?A s d}"
  proof (rule set_eqI)
    fix d show "d \<in> set ?R \<longleftrightarrow> d \<in> {d. conn ?A s d}"
      using i2 sup by blast
  qed
  show "set ?V = set V0 \<union> {d. conn ?A s d}"
    using i1 eq by simp
qed

subsection \<open>The flood fill\<close>

lemma frame_refl: "frame st st i"
  unfolding frame_def by (auto intro: exI [of _ "territory (players st ! i)"])

lemma frame_trans: "frame a b i \<Longrightarrow> frame b c i \<Longrightarrow> frame a c i"
  unfolding frame_def by (elim conjE exE, intro conjI) auto

lemma frame_pid: "frame st st' i \<Longrightarrow> pid (players st' ! i) = pid (players st ! i)"
  unfolding frame_def by auto

lemma fill_loop:
  assumes "i < length (players st)" "\<forall>pos \<in> set region. 0 \<le> snd pos \<and> snd pos < mapHeight st"
  shows "\<exists>st'. forOf region st (\<lambda>pos s.
                  ebind (gridWrite s pos (pid (players s ! i))) (\<lambda>s'.
                    Inr (updPlayer s' i (\<lambda>p. p\<lparr>territory := Set_add (territory p) pos\<rparr>)))) = Inr st'
           \<and> frame st st' i
           \<and> grid st' = (\<lambda>c. if c \<in> set region then Some (pid (players st ! i)) else grid st c)
           \<and> set (territory (players st' ! i)) = set (territory (players st ! i)) \<union> set region"
  using assms
proof (induction region arbitrary: st)
  case Nil
  then show ?case by (simp add: frame_refl)
next
  case (Cons pos region)
  let ?body = "\<lambda>pos s.
                  ebind (gridWrite s pos (pid (players s ! i))) (\<lambda>s'.
                    Inr (updPlayer s' i (\<lambda>p. p\<lparr>territory := Set_add (territory p) pos\<rparr>)))"
  let ?st1 = "updPlayer (st\<lparr>grid := (grid st)(pos \<mapsto> pid (players st ! i))\<rparr>) i
                (\<lambda>p. p\<lparr>territory := Set_add (territory p) pos\<rparr>)"
  have b1: "?body pos st = Inr ?st1"
    using Cons.prems by (simp add: gridWrite_def ebind_def)
  have f1: "frame st ?st1 i"
    using Cons.prems(1) unfolding frame_def updPlayer_def by auto
  have len1: "i < length (players ?st1)"
    using Cons.prems(1) by (simp add: updPlayer_def)
  have h1: "\<forall>pos \<in> set region. 0 \<le> snd pos \<and> snd pos < mapHeight ?st1"
    using Cons.prems(2) by (simp add: updPlayer_def)
  obtain st' where st': "forOf region ?st1 ?body = Inr st'" "frame ?st1 st' i"
    "grid st' = (\<lambda>c. if c \<in> set region then Some (pid (players ?st1 ! i)) else grid ?st1 c)"
    "set (territory (players st' ! i)) = set (territory (players ?st1 ! i)) \<union> set region"
    using Cons.IH [OF len1 h1] by blast
  have pid1: "pid (players ?st1 ! i) = pid (players st ! i)"
    using Cons.prems(1) by (simp add: updPlayer_def)
  have t1: "set (territory (players ?st1 ! i)) = insert pos (set (territory (players st ! i)))"
    using Cons.prems(1) by (auto simp: updPlayer_def Set_add_def Set_has_def)
  have g: "grid st' = (\<lambda>c. if c \<in> set (pos # region) then Some (pid (players st ! i)) else grid st c)"
    unfolding st'(3) pid1 by (auto simp: updPlayer_def fun_eq_iff)
  have t: "set (territory (players st' ! i)) = set (territory (players st ! i)) \<union> set (pos # region)"
    unfolding st'(4) t1 by auto
  have "forOf (pos # region) st ?body = Inr st'"
    using b1 st'(1) by simp
  moreover have "frame st st' i"
    using f1 st'(2) by (rule frame_trans)
  ultimately show ?case
    using g t by blast
qed

lemma conn_mono: "conn A a b \<Longrightarrow> (\<And>c. A c \<Longrightarrow> B c) \<Longrightarrow> conn B a b"
  unfolding conn_def by (erule rtranclp_mono [THEN predicate2D, rotated]) auto

lemma sameRegion_sym: "sameRegion st a b \<Longrightarrow> sameRegion st b a"
  unfolding sameRegion_def by (rule conn_sym)

lemma sameRegion_trans: "sameRegion st a b \<Longrightarrow> sameRegion st b c \<Longrightarrow> sameRegion st a c"
  unfolding sameRegion_def by (rule conn_trans)

lemma enclosed_cong: "sameRegion st a b \<Longrightarrow> enclosed st a = enclosed st b"
  unfolding enclosed_def by (meson sameRegion_sym sameRegion_trans)

lemma conn_restrict:
  assumes "conn B c d" and "A c"
    and "\<And>y. conn B c y \<Longrightarrow> A y"
  shows "conn A c d"
  using assms(1) unfolding conn_def
proof (induction rule: rtranclp_induct)
  case base
  then show ?case by simp
next
  case (step y z)
  have "conn B c y" using step.hyps(1) by (simp add: conn_def)
  moreover have "conn B c z"
    using step.hyps(1,2) unfolding conn_def by (rule rtranclp.rtrancl_into_rtrancl)
  ultimately have "A y" "A z" using assms(3) by auto
  then have "(\<lambda>a b. adjacent a b \<and> A a \<and> A b) y z"
    using step.hyps(2) by simp
  with step.IH show ?case by (rule rtranclp.rtrancl_into_rtrancl)
qed

lemma set_boardCells: "set (boardCells st) = {c. isValidPosition st (fst c) (snd c)}"
  by (auto simp: boardCells_def isValidPosition_def)

lemma regionTouchesBorder_iff: "regionTouchesBorder st region \<longleftrightarrow> (\<exists>d \<in> set region. isBorder st d)"
  by (simp add: regionTouchesBorder_def isBorder_def list_ex_iff case_prod_beta)

lemma ff_step:
  assumes inv: "ff_inv st0 i D st visited"
    and i: "i < length (players st0)"
    and c: "isValidPosition st0 (fst c) (snd c)"
  shows "\<exists>st' visited'. floodFillCell i c (st, visited) = Inr (st', visited')
           \<and> ff_inv st0 i (insert c D) st' visited'"
proof -
  let ?pid = "pid (players st0 ! i)"
  have fr: "frame st0 st i"
    and vis_un: "\<forall>c \<in> set visited. unowned st0 c"
    and vis_cl: "\<forall>a \<in> set visited. \<forall>b. sameRegion st0 a b \<longrightarrow> b \<in> set visited"
    and gr: "\<forall>c. grid st c = (if c \<in> set visited \<and> enclosed st0 c then Some ?pid else grid st0 c)"
    and terr: "set (territory (players st ! i))
         = set (territory (players st0 ! i)) \<union> {c \<in> set visited. enclosed st0 c}"
    and dn: "\<forall>c \<in> D. unowned st0 c \<longrightarrow> c \<in> set visited"
    using inv unfolding ff_inv_def by blast+
  have grd: "grid st d = (if d \<in> set visited \<and> enclosed st0 d then Some ?pid else grid st0 d)" for d
    using gr by (rule spec)
  have dims: "mapWidth st = mapWidth st0" "mapHeight st = mapHeight st0"
    and len: "length (players st) = length (players st0)"
    using fr by (simp_all add: frame_def)
  have pid: "pid (players st ! i) = ?pid"
    using fr by (rule frame_pid)
  have bord: "isBorder st = isBorder st0"
    by (simp add: isBorder_def fun_eq_iff dims)
  show ?thesis
  proof (cases "grid st c = Some 0 \<and> \<not> Set_has visited c")
    case False
    have "c \<in> set visited" if "unowned st0 c"
    proof (rule ccontr)
      assume "c \<notin> set visited"
      then have "grid st c = Some 0"
        using grd [of c] that by (simp add: unowned_def)
      with False \<open>c \<notin> set visited\<close> show False
        by (simp add: Set_has_def)
    qed
    then have "ff_inv st0 i (insert c D) st visited"
      using inv unfolding ff_inv_def by blast
    moreover have "floodFillCell i c (st, visited) = Inr (st, visited)"
      using False by (auto simp add: floodFillCell_def)
    ultimately show ?thesis by blast
  next
    case True
    then have cnv: "c \<notin> set visited" and gc: "grid st c = Some 0"
      by (simp_all add: Set_has_def)
    have un0: "unowned st0 c"
      using grd [of c] cnv gc c by (simp add: unowned_def)
    have un: "unowned st c"
      using gc c by (simp add: unowned_def isValidPosition_def dims)
    let ?A = "\<lambda>d. unowned st d \<and> d \<notin> set visited"
    have un_iff: "unowned st d \<longleftrightarrow> unowned st0 d" if "d \<notin> set visited" for d
      using grd [of d] that by (simp add: unowned_def isValidPosition_def dims)
    have A_iff: "?A d \<longleftrightarrow> unowned st0 d \<and> d \<notin> set visited" for d
      using un_iff [of d] by blast
    have comp_nv: "d \<notin> set visited" if "sameRegion st0 c d" for d
    proof
      assume "d \<in> set visited"
      moreover have "sameRegion st0 d c" using that by (rule sameRegion_sym)
      ultimately have "c \<in> set visited" using vis_cl by blast
      with cnv show False by simp
    qed
    have comp_un: "unowned st0 d" if "sameRegion st0 c d" for d
      using that un0 unfolding sameRegion_def conn_def
      by (induction rule: rtranclp_induct) auto
    have reg_eq: "conn ?A c d \<longleftrightarrow> sameRegion st0 c d" for d
    proof
      assume "conn ?A c d"
      then show "sameRegion st0 c d"
        unfolding sameRegion_def by (rule conn_mono) (simp add: A_iff)
    next
      assume cd: "sameRegion st0 c d"
      show "conn ?A c d"
      proof (rule conn_restrict [where B = "unowned st0"])
        show "conn (unowned st0) c d" using cd by (simp add: sameRegion_def)
        show "?A c" using un cnv by simp
        show "?A y" if "conn (unowned st0) c y" for y
        proof -
          have "unowned st0 y \<and> y \<notin> set visited"
            using that comp_nv [of y] comp_un [of y] by (simp add: sameRegion_def)
          then show ?thesis using un_iff [of y] by blast
        qed
      qed
    qed
    let ?rv = "getConnectedRegion st (fst c) (snd c) visited"
    let ?R = "fst ?rv" and ?V = "snd ?rv"
    have R: "set ?R = {d. sameRegion st0 c d}"
      using getConnectedRegion_spec(1) [OF un cnv] reg_eq by simp
    have V: "set ?V = set visited \<union> {d. sameRegion st0 c d}"
      using getConnectedRegion_spec(2) [OF un cnv] reg_eq by simp
    have enc_R: "enclosed st0 d = enclosed st0 c" if "d \<in> set ?R" for d
      using that R enclosed_cong [of st0 c d] by simp
    have touch: "regionTouchesBorder st ?R \<longleftrightarrow> \<not> enclosed st0 c"
      by (simp add: regionTouchesBorder_iff R bord enclosed_def)
    have V_un: "\<forall>c \<in> set ?V. unowned st0 c"
      using V vis_un comp_un by auto
    have V_cl: "\<forall>a \<in> set ?V. \<forall>b. sameRegion st0 a b \<longrightarrow> b \<in> set ?V"
      using V vis_cl sameRegion_trans by blast
    have cV: "c \<in> set ?V"
      using V by (simp add: sameRegion_def conn_refl)
    have dn': "\<forall>d \<in> insert c D. unowned st0 d \<longrightarrow> d \<in> set ?V"
      using dn cV V by auto
    have R_nv: "d \<notin> set visited" if "d \<in> set ?R" for d
      using that R comp_nv by simp
    show ?thesis
    proof (cases "enclosed st0 c")
      case False
      then have res: "floodFillCell i c (st, visited) = Inr (st, ?V)"
        using True touch by (simp add: floodFillCell_def Let_def)
      have g': "\<forall>d. grid st d = (if d \<in> set ?V \<and> enclosed st0 d then Some ?pid else grid st0 d)"
      proof
        fix d
        show "grid st d = (if d \<in> set ?V \<and> enclosed st0 d then Some ?pid else grid st0 d)"
        proof (cases "d \<in> set ?R")
          case True
          then have "\<not> enclosed st0 d" "d \<notin> set visited"
            using enc_R False R_nv by auto
          then show ?thesis using grd [of d] by simp
        next
          case False
          then have "d \<in> set ?V \<longleftrightarrow> d \<in> set visited" using V R by auto
          then show ?thesis using grd [of d] by simp
        qed
      qed
      have t': "set (territory (players st ! i))
         = set (territory (players st0 ! i)) \<union> {c \<in> set ?V. enclosed st0 c}"
      proof -
        have "{d \<in> set ?V. enclosed st0 d} = {d \<in> set visited. enclosed st0 d}"
          using V R enc_R False by auto
        then show ?thesis using terr by simp
      qed
      have "ff_inv st0 i (insert c D) st ?V"
        unfolding ff_inv_def using fr V_un V_cl g' t' dn' by blast
      with res show ?thesis by blast
    next
      case enc: True
      have rows: "\<forall>pos \<in> set ?R. 0 \<le> snd pos \<and> snd pos < mapHeight st"
        using R comp_un by (auto simp: unowned_def isValidPosition_def dims)
      have i': "i < length (players st)" using i len by simp
      obtain st' where st': "forOf ?R st (\<lambda>pos s.
                  ebind (gridWrite s pos (pid (players s ! i))) (\<lambda>s'.
                    Inr (updPlayer s' i (\<lambda>p. p\<lparr>territory := Set_add (territory p) pos\<rparr>)))) = Inr st'"
        "frame st st' i"
        "grid st' = (\<lambda>c. if c \<in> set ?R then Some (pid (players st ! i)) else grid st c)"
        "set (territory (players st' ! i)) = set (territory (players st ! i)) \<union> set ?R"
        using fill_loop [OF i' rows] by blast
      have res: "floodFillCell i c (st, visited) = Inr (st', ?V)"
        using True touch enc st'(1) by (simp add: floodFillCell_def Let_def ebind_def)
      have fr': "frame st0 st' i"
        using fr st'(2) by (rule frame_trans)
      have g': "\<forall>d. grid st' d = (if d \<in> set ?V \<and> enclosed st0 d then Some ?pid else grid st0 d)"
      proof
        fix d
        show "grid st' d = (if d \<in> set ?V \<and> enclosed st0 d then Some ?pid else grid st0 d)"
        proof (cases "d \<in> set ?R")
          case True
          then have "enclosed st0 d" "d \<in> set ?V"
            using enc_R enc V R by auto
          then show ?thesis using True st'(3) pid by simp
        next
          case False
          then have "d \<in> set ?V \<longleftrightarrow> d \<in> set visited" using V R by auto
          then show ?thesis using False grd [of d] st'(3) by simp
        qed
      qed
      have t': "set (territory (players st' ! i))
         = set (territory (players st0 ! i)) \<union> {c \<in> set ?V. enclosed st0 c}"
      proof -
        have "{d \<in> set ?V. enclosed st0 d} = {d \<in> set visited. enclosed st0 d} \<union> set ?R"
          using V R enc_R enc by auto
        then show ?thesis using terr st'(4) by auto
      qed
      have "ff_inv st0 i (insert c D) st' ?V"
        unfolding ff_inv_def using fr' V_un V_cl g' t' dn' by blast
      with res show ?thesis by blast
    qed
  qed
qed

lemma ff_loop:
  assumes "ff_inv st0 i D st visited" "i < length (players st0)"
    "\<forall>c \<in> set cs. isValidPosition st0 (fst c) (snd c)"
  shows "\<exists>st' visited'. forOf cs (st, visited) (floodFillCell i) = Inr (st', visited')
           \<and> ff_inv st0 i (D \<union> set cs) st' visited'"
  using assms
proof (induction cs arbitrary: D st visited)
  case Nil
  then show ?case by simp
next
  case (Cons c cs)
  have c: "isValidPosition st0 (fst c) (snd c)" using Cons.prems(3) by simp
  obtain st1 v1 where s1: "floodFillCell i c (st, visited) = Inr (st1, v1)"
    "ff_inv st0 i (insert c D) st1 v1"
    using ff_step [OF Cons.prems(1,2) c] by blast
  have "\<forall>c \<in> set cs. isValidPosition st0 (fst c) (snd c)" using Cons.prems(3) by simp
  from Cons.IH [OF s1(2) Cons.prems(2) this]
  obtain st' v' where s': "forOf cs (st1, v1) (floodFillCell i) = Inr (st', v')"
    "ff_inv st0 i (insert c D \<union> set cs) st' v'" by blast
  have "forOf (c # cs) (st, visited) (floodFillCell i) = Inr (st', v')"
    using s1(1) s'(1) by simp
  moreover have "insert c D \<union> set cs = D \<union> set (c # cs)" by auto
  ultimately show ?case using s'(2) by auto
qed

lemma floodFillTerritory_spec:
  assumes i: "i < length (players st)"
  shows "\<exists>st'. floodFillTerritory st i = Inr st' \<and> frame st st' i
           \<and> (\<forall>c. grid st' c = (if unowned st c \<and> enclosed st c
                                then Some (pid (players st ! i)) else grid st c))
           \<and> set (territory (players st' ! i))
               = set (territory (players st ! i)) \<union> {c. unowned st c \<and> enclosed st c}"
proof -
  have init: "ff_inv st i {} st []"
    by (simp add: ff_inv_def frame_refl)
  have cells: "\<forall>c \<in> set (boardCells st). isValidPosition st (fst c) (snd c)"
    by (simp add: set_boardCells)
  obtain st' v' where r: "forOf (boardCells st) (st, []) (floodFillCell i) = Inr (st', v')"
    and inv: "ff_inv st i ({} \<union> set (boardCells st)) st' v'"
    using ff_loop [OF init i cells] by blast
  have cover: "c \<in> set v'" if "unowned st c" for c
  proof -
    have "c \<in> set (boardCells st)"
      using that by (simp add: set_boardCells unowned_def)
    then show ?thesis using inv that unfolding ff_inv_def by blast
  qed
  have sub: "unowned st c" if "c \<in> set v'" for c
    using inv that unfolding ff_inv_def by blast
  have v': "c \<in> set v' \<longleftrightarrow> unowned st c" for c
    using cover sub by blast
  have "floodFillTerritory st i = Inr st'"
    by (simp add: floodFillTerritory_def r ebind_def)
  moreover have "frame st st' i"
    using inv unfolding ff_inv_def by blast
  moreover have "\<forall>c. grid st' c = (if unowned st c \<and> enclosed st c
                                then Some (pid (players st ! i)) else grid st c)"
    using inv v' unfolding ff_inv_def by simp
  moreover have "set (territory (players st' ! i))
               = set (territory (players st ! i)) \<union> {c. unowned st c \<and> enclosed st c}"
    using inv v' unfolding ff_inv_def by simp
  ultimately show ?thesis by blast
qed

lemma sameRegion_unowned: "sameRegion st c d \<Longrightarrow> unowned st c \<Longrightarrow> unowned st d"
  unfolding sameRegion_def conn_def by (induction rule: rtranclp_induct) auto

text \<open>
  C1. The flood fill returns. For an unowned cell \<open>c\<close>: if its region holds no border
  cell, every cell of the region is owned by the claiming player afterwards and is in the
  player's territory set; if the region holds a border cell, every cell of the region has
  the owner it had.
\<close>

theorem floodFillTerritory_regions:
  assumes "i < length (players st)" and "unowned st c"
  shows "\<exists>st'. floodFillTerritory st i = Inr st'
           \<and> ((\<forall>d. sameRegion st c d \<longrightarrow> \<not> isBorder st d) \<longrightarrow>
                (\<forall>d. sameRegion st c d \<longrightarrow>
                      grid st' d = Some (pid (players st ! i))
                      \<and> d \<in> set (territory (players st' ! i))))
           \<and> ((\<exists>d. sameRegion st c d \<and> isBorder st d) \<longrightarrow>
                (\<forall>d. sameRegion st c d \<longrightarrow> grid st' d = grid st d))"
proof -
  obtain st' where r: "floodFillTerritory st i = Inr st'"
    and g: "\<forall>c. grid st' c = (if unowned st c \<and> enclosed st c
                                then Some (pid (players st ! i)) else grid st c)"
    and t: "set (territory (players st' ! i))
               = set (territory (players st ! i)) \<union> {c. unowned st c \<and> enclosed st c}"
    using floodFillTerritory_spec [OF assms(1)] by blast
  have gd: "grid st' d = (if unowned st d \<and> enclosed st d
                                then Some (pid (players st ! i)) else grid st d)" for d
    using g by (rule spec)
  have un: "unowned st d" if "sameRegion st c d" for d
    using that assms(2) by (rule sameRegion_unowned)
  have enc: "enclosed st d = enclosed st c" if "sameRegion st c d" for d
    using enclosed_cong [OF that] by simp
  have a: "grid st' d = Some (pid (players st ! i)) \<and> d \<in> set (territory (players st' ! i))"
    if "\<forall>d. sameRegion st c d \<longrightarrow> \<not> isBorder st d" "sameRegion st c d" for d
  proof -
    have "enclosed st d" using that enc by (simp add: enclosed_def)
    then show ?thesis using gd [of d] t un [OF that(2)] by simp
  qed
  have b: "grid st' d = grid st d"
    if "\<exists>d. sameRegion st c d \<and> isBorder st d" "sameRegion st c d" for d
  proof -
    have "\<not> enclosed st d" using that enc by (auto simp: enclosed_def)
    then show ?thesis using gd [of d] by simp
  qed
  show ?thesis using r a b by blast
qed


lemma exGameClaim_region:
  assumes "sameRegion exGameClaim (2, 2) d"
  shows "d \<in> {(2, 2), (2, 1)}"
  using assms unfolding sameRegion_def
proof (rule conn_closed)
  show "(2, 2) \<in> {(2, 2), (2, 1) :: cell}" by simp
next
  fix a b :: cell
  assume a: "a \<in> {(2, 2), (2, 1)}" and ab: "adjacent a b" and ub: "unowned exGameClaim b"
  have bad: "\<not> unowned exGameClaim x" if "x \<in> {(3, 2), (1, 2), (2, 3), (3, 1), (1, 1), (2, 0)}" for x
  proof -
    have "grid exGameClaim x \<noteq> Some 0"
      using that by (auto simp: exGameClaim_def exGame_def)
    then show ?thesis by (simp add: unowned_def)
  qed
  have "a = (2, 2) \<or> a = (2, 1)" using a by simp
  then have "b \<in> {(3, 2), (1, 2), (2, 3), (3, 1), (1, 1), (2, 0)} \<or> b \<in> {(2, 2), (2, 1)}"
  proof
    assume "a = (2, 2)"
    then have "b = (3, 2) \<or> b = (1, 2) \<or> b = (2, 3) \<or> b = (2, 1)"
      using ab by (simp add: adjacent_def)
    then show ?thesis by blast
  next
    assume "a = (2, 1)"
    then have "b = (3, 1) \<or> b = (1, 1) \<or> b = (2, 2) \<or> b = (2, 0)"
      using ab by (simp add: adjacent_def)
    then show ?thesis by blast
  qed
  then show "b \<in> {(2, 2), (2, 1)}"
    using bad [of b] ub by blast
qed

theorem floodFillTerritory_regions_witness:
  "1 < length (players exGameClaim) \<and> unowned exGameClaim (2, 2)
   \<and> sameRegion exGameClaim (2, 2) (2, 2) \<and> \<not> isBorder exGameClaim (2, 2)
   \<and> unowned exGameClaim (0, 0) \<and> sameRegion exGameClaim (0, 0) (0, 0) \<and> isBorder exGameClaim (0, 0)
   \<and> (\<exists>st'. floodFillTerritory exGameClaim 1 = Inr st'
          \<and> grid st' (2, 2) = Some 2 \<and> (2, 2) \<in> set (territory (players st' ! 1))
          \<and> grid st' (0, 0) = Some 0)"
proof -
  have len: "1 < length (players exGameClaim)"
    by (simp add: exGameClaim_def)
  have u22: "unowned exGameClaim (2, 2)" and u00: "unowned exGameClaim (0, 0)"
    by (simp_all add: unowned_def isValidPosition_def exGameClaim_def exGame_def)
  have c22: "sameRegion exGameClaim (2, 2) (2, 2)" and c00: "sameRegion exGameClaim (0, 0) (0, 0)"
    by (simp_all add: sameRegion_def conn_refl)
  have nb: "\<not> isBorder exGameClaim (2, 2)" and nb21: "\<not> isBorder exGameClaim (2, 1)"
    and b00: "isBorder exGameClaim (0, 0)"
    by (simp_all add: isBorder_def exGameClaim_def exGame_def)
  have encl: "\<forall>d. sameRegion exGameClaim (2, 2) d \<longrightarrow> \<not> isBorder exGameClaim d"
  proof (intro allI impI)
    fix d assume "sameRegion exGameClaim (2, 2) d"
    then have "d \<in> {(2, 2), (2, 1)}" by (rule exGameClaim_region)
    then have "d = (2, 2) \<or> d = (2, 1)" by simp
    then show "\<not> isBorder exGameClaim d"
      using nb nb21 by (elim disjE) simp_all
  qed
  have pid: "pid (players exGameClaim ! 1) = 2"
    by (simp add: exGameClaim_def exQ_def)
  have g00: "grid exGameClaim (0, 0) = Some 0"
    by (simp add: exGameClaim_def exGame_def)
  obtain st' where r: "floodFillTerritory exGameClaim 1 = Inr st'"
    and A: "(\<forall>d. sameRegion exGameClaim (2, 2) d \<longrightarrow> \<not> isBorder exGameClaim d) \<longrightarrow>
                (\<forall>d. sameRegion exGameClaim (2, 2) d \<longrightarrow>
                      grid st' d = Some (pid (players exGameClaim ! 1))
                      \<and> d \<in> set (territory (players st' ! 1)))"
    using floodFillTerritory_regions [OF len u22] by blast
  obtain st'' where r': "floodFillTerritory exGameClaim 1 = Inr st''"
    and B: "(\<exists>d. sameRegion exGameClaim (0, 0) d \<and> isBorder exGameClaim d) \<longrightarrow>
                (\<forall>d. sameRegion exGameClaim (0, 0) d \<longrightarrow> grid st'' d = grid exGameClaim d)"
    using floodFillTerritory_regions [OF len u00] by blast
  have same: "st'' = st'" using r r' by simp
  have a: "grid st' (2, 2) = Some 2 \<and> (2, 2) \<in> set (territory (players st' ! 1))"
    using A encl c22 pid by simp
  have "\<exists>d. sameRegion exGameClaim (0, 0) d \<and> isBorder exGameClaim d"
    using c00 b00 by (rule_tac x = "(0, 0)" in exI) simp
  then have "grid st'' (0, 0) = grid exGameClaim (0, 0)"
    using B c00 by blast
  then have b: "grid st' (0, 0) = Some 0"
    using same g00 by simp
  have "\<exists>st'. floodFillTerritory exGameClaim 1 = Inr st'
          \<and> grid st' (2, 2) = Some 2 \<and> (2, 2) \<in> set (territory (players st' ! 1))
          \<and> grid st' (0, 0) = Some 0"
    using r a b by (rule_tac x = st' in exI) simp
  then show ?thesis
    using len u22 c22 nb u00 c00 b00 by simp
qed

subsection \<open>claimTerritory and movePlayer\<close>

lemma paint_loop:
  assumes "i < length (players st)" "\<forall>pos \<in> set tr. 0 \<le> snd pos \<and> snd pos < mapHeight st"
  shows "\<exists>st'. forOf tr st (\<lambda>pos s.
                 gridWrite (updPlayer s i (\<lambda>p. p\<lparr>territory := Set_add (territory p) pos\<rparr>))
                   pos (pid (players s ! i))) = Inr st'
           \<and> frame st st' i
           \<and> grid st' = (\<lambda>c. if c \<in> set tr then Some (pid (players st ! i)) else grid st c)
           \<and> set (territory (players st' ! i)) = set (territory (players st ! i)) \<union> set tr"
  using assms
proof (induction tr arbitrary: st)
  case Nil
  then show ?case by (simp add: frame_refl)
next
  case (Cons pos tr)
  let ?body = "\<lambda>pos s.
                 gridWrite (updPlayer s i (\<lambda>p. p\<lparr>territory := Set_add (territory p) pos\<rparr>))
                   pos (pid (players s ! i))"
  let ?st1 = "(updPlayer st i (\<lambda>p. p\<lparr>territory := Set_add (territory p) pos\<rparr>))
                \<lparr>grid := (grid st)(pos \<mapsto> pid (players st ! i))\<rparr>"
  have b1: "?body pos st = Inr ?st1"
    using Cons.prems by (simp add: gridWrite_def updPlayer_def)
  have f1: "frame st ?st1 i"
    using Cons.prems(1) unfolding frame_def updPlayer_def by auto
  have len1: "i < length (players ?st1)"
    using Cons.prems(1) by (simp add: updPlayer_def)
  have h1: "\<forall>pos \<in> set tr. 0 \<le> snd pos \<and> snd pos < mapHeight ?st1"
    using Cons.prems(2) by (simp add: updPlayer_def)
  obtain st' where st': "forOf tr ?st1 ?body = Inr st'" "frame ?st1 st' i"
    "grid st' = (\<lambda>c. if c \<in> set tr then Some (pid (players ?st1 ! i)) else grid ?st1 c)"
    "set (territory (players st' ! i)) = set (territory (players ?st1 ! i)) \<union> set tr"
    using Cons.IH [OF len1 h1] by blast
  have pid1: "pid (players ?st1 ! i) = pid (players st ! i)"
    using Cons.prems(1) by (simp add: updPlayer_def)
  have t1: "set (territory (players ?st1 ! i)) = insert pos (set (territory (players st ! i)))"
    using Cons.prems(1) by (auto simp: updPlayer_def Set_add_def Set_has_def)
  have g: "grid st' = (\<lambda>c. if c \<in> set (pos # tr) then Some (pid (players st ! i)) else grid st c)"
    unfolding st'(3) pid1 by (auto simp: updPlayer_def fun_eq_iff)
  have t: "set (territory (players st' ! i)) = set (territory (players st ! i)) \<union> set (pos # tr)"
    unfolding st'(4) t1 by auto
  have "forOf (pos # tr) st ?body = Inr st'"
    using b1 st'(1) by simp
  moreover have "frame st st' i"
    using f1 st'(2) by (rule frame_trans)
  ultimately show ?case
    using g t by blast
qed

lemma frame_trail: "frame st st' i \<Longrightarrow> trail (players st' ! i) = trail (players st ! i)"
  unfolding frame_def by auto

lemma claimTerritory_spec:
  assumes i: "i < length (players st)"
    and ne: "trail (players st ! i) \<noteq> []"
    and rows: "\<forall>pos \<in> set (trail (players st ! i)). 0 \<le> snd pos \<and> snd pos < mapHeight st"
  shows "\<exists>st1 st2. claimTerritory st i = Inr (updPlayer st2 i (\<lambda>p. p\<lparr>trail := []\<rparr>))
           \<and> floodFillTerritory st1 i = Inr st2
           \<and> frame st st1 i \<and> frame st1 st2 i
           \<and> (\<forall>c. grid st1 c = (if c \<in> set (trail (players st ! i))
                                 then Some (pid (players st ! i)) else grid st c))
           \<and> set (territory (players st1 ! i))
               = set (territory (players st ! i)) \<union> set (trail (players st ! i))
           \<and> (\<forall>c. grid st2 c = (if unowned st1 c \<and> enclosed st1 c
                                then Some (pid (players st ! i)) else grid st1 c))
           \<and> set (territory (players st2 ! i))
               = set (territory (players st1 ! i)) \<union> {c. unowned st1 c \<and> enclosed st1 c}"
proof -
  obtain st1 where p: "forOf (trail (players st ! i)) st (\<lambda>pos s.
                 gridWrite (updPlayer s i (\<lambda>p. p\<lparr>territory := Set_add (territory p) pos\<rparr>))
                   pos (pid (players s ! i))) = Inr st1"
    and f1: "frame st st1 i"
    and g1: "grid st1 = (\<lambda>c. if c \<in> set (trail (players st ! i))
                                 then Some (pid (players st ! i)) else grid st c)"
    and t1: "set (territory (players st1 ! i))
               = set (territory (players st ! i)) \<union> set (trail (players st ! i))"
    using paint_loop [OF i rows] by blast
  have i1: "i < length (players st1)"
    using f1 i by (simp add: frame_def)
  have pid1: "pid (players st1 ! i) = pid (players st ! i)"
    using f1 by (rule frame_pid)
  obtain st2 where ff: "floodFillTerritory st1 i = Inr st2" and f2: "frame st1 st2 i"
    and g2: "\<forall>c. grid st2 c = (if unowned st1 c \<and> enclosed st1 c
                                then Some (pid (players st1 ! i)) else grid st1 c)"
    and t2: "set (territory (players st2 ! i))
               = set (territory (players st1 ! i)) \<union> {c. unowned st1 c \<and> enclosed st1 c}"
    using floodFillTerritory_spec [OF i1] by blast
  have r: "claimTerritory st i = Inr (updPlayer st2 i (\<lambda>p. p\<lparr>trail := []\<rparr>))"
    using ne by (simp add: claimTerritory_def p ff ebind_def)
  have g1': "\<forall>c. grid st1 c = (if c \<in> set (trail (players st ! i))
                                 then Some (pid (players st ! i)) else grid st c)"
    by (simp only: g1) simp
  have g2': "\<forall>c. grid st2 c = (if unowned st1 c \<and> enclosed st1 c
                                then Some (pid (players st ! i)) else grid st1 c)"
    using g2 unfolding pid1 .
  show ?thesis
    by (intro exI [of _ st1] exI [of _ st2] conjI r ff f1 f2 g1' t1 g2' t2)
qed

lemma updPlayer_simps:
  "mapWidth (updPlayer st i f) = mapWidth st"
  "mapHeight (updPlayer st i f) = mapHeight st"
  "grid (updPlayer st i f) = grid st"
  "gameRunning (updPlayer st i f) = gameRunning st"
  "gameStartTime (updPlayer st i f) = gameStartTime st"
  "length (players (updPlayer st i f)) = length (players st)"
  "i < length (players st) \<Longrightarrow> players (updPlayer st i f) ! i = f (players st ! i)"
  "j \<noteq> i \<Longrightarrow> players (updPlayer st i f) ! j = players st ! j"
  by (simp_all add: updPlayer_def)

lemma isValidMove_rows: "isValidMove st p x y \<Longrightarrow> 0 \<le> y \<and> y < mapHeight st"
  by (auto simp: isValidMove_def split: if_splits)

lemma board_cong:
  assumes "grid a = grid b" "mapWidth a = mapWidth b" "mapHeight a = mapHeight b"
  shows "unowned a = unowned b" and "enclosed a = enclosed b"
proof -
  show u: "unowned a = unowned b"
    using assms by (simp add: unowned_def isValidPosition_def fun_eq_iff)
  have "isBorder a = isBorder b"
    using assms by (simp add: isBorder_def fun_eq_iff)
  then show "enclosed a = enclosed b"
    by (intro ext) (simp only: enclosed_def sameRegion_def u)
qed

lemma movePlayer_claim_effect:
  assumes i: "i < length (players st)"
    and valid: "isValidMove st (players st ! i) (fst (nextCell (players st ! i))) (snd (nextCell (players st ! i)))"
    and home: "nextCell (players st ! i) \<in> set (territory (players st ! i))"
    and ne: "trailAfterStep (players st ! i) \<noteq> []"
    and rows: "\<forall>pos \<in> set (trailAfterStep (players st ! i)). 0 \<le> snd pos \<and> snd pos < mapHeight st"
  shows "\<exists>st'. movePlayer depth st i = Inr st'
           \<and> (\<forall>c. grid st' c = (if c \<in> set (trailAfterStep (players st ! i)) \<union> floodFilled st i
                                 then Some (pid (players st ! i)) else grid st c))
           \<and> set (territory (players st' ! i))
               = set (territory (players st ! i)) \<union> set (trailAfterStep (players st ! i))
                 \<union> floodFilled st i
           \<and> trail (players st' ! i) = []
           \<and> (px (players st' ! i), py (players st' ! i)) = nextCell (players st ! i)
           \<and> length (players st') = length (players st)
           \<and> (\<forall>j. j \<noteq> i \<longrightarrow> players st' ! j = players st ! j)"
proof -
  let ?p = "players st ! i"
  let ?tr = "trailAfterStep ?p"
  let ?sa = "if \<not> Set_has (territory ?p) (px ?p, py ?p)
             then updPlayer st i (\<lambda>p. p\<lparr>trail := trail p @ [(px p, py p)]\<rparr>) else st"
  let ?sb = "updPlayer ?sa i (\<lambda>p. p\<lparr>px := fst (nextCell ?p), py := snd (nextCell ?p)\<rparr>)"
  have pb: "players ?sb ! i = ?p\<lparr>trail := ?tr, px := fst (nextCell ?p), py := snd (nextCell ?p)\<rparr>"
    using i by (simp add: updPlayer_simps trailAfterStep_def)
  have gb: "grid ?sb = grid st" and hb: "mapHeight ?sb = mapHeight st"
    and wb: "mapWidth ?sb = mapWidth st"
    and ib: "i < length (players ?sb)" and lb: "length (players ?sb) = length (players st)"
    using i by (simp_all add: updPlayer_simps)
  have ob: "players ?sb ! j = players st ! j" if "j \<noteq> i" for j
    using that by (simp add: updPlayer_simps)
  have mv: "movePlayer depth st i = claimTerritory ?sb i"
    using valid home ne pb by (simp add: movePlayer_def Let_def nextCell_def Set_has_def)
  have neb: "trail (players ?sb ! i) \<noteq> []" using ne pb by simp
  have rowsb: "\<forall>pos \<in> set (trail (players ?sb ! i)). 0 \<le> snd pos \<and> snd pos < mapHeight ?sb"
    using rows pb hb by simp
  obtain st1 st2 where c: "claimTerritory ?sb i = Inr (updPlayer st2 i (\<lambda>p. p\<lparr>trail := []\<rparr>))"
    and f1: "frame ?sb st1 i"
    and f2: "frame st1 st2 i"
    and g1: "\<forall>c. grid st1 c = (if c \<in> set (trail (players ?sb ! i))
                                 then Some (pid (players ?sb ! i)) else grid ?sb c)"
    and t1: "set (territory (players st1 ! i))
               = set (territory (players ?sb ! i)) \<union> set (trail (players ?sb ! i))"
    and g2: "\<forall>c. grid st2 c = (if unowned st1 c \<and> enclosed st1 c
                                then Some (pid (players ?sb ! i)) else grid st1 c)"
    and t2: "set (territory (players st2 ! i))
               = set (territory (players st1 ! i)) \<union> {c. unowned st1 c \<and> enclosed st1 c}"
    using claimTerritory_spec [OF ib neb rowsb] by blast
  let ?st' = "updPlayer st2 i (\<lambda>p. p\<lparr>trail := []\<rparr>)"
  have f: "frame ?sb st2 i" using f1 f2 by (rule frame_trans)
  have i2: "i < length (players st2)" and l2: "length (players st2) = length (players st)"
    using f ib lb by (simp_all add: frame_def)
  have trb: "trail (players ?sb ! i) = ?tr" and pidb: "pid (players ?sb ! i) = pid ?p"
    and terb: "territory (players ?sb ! i) = territory ?p"
    using pb by simp_all
  have g1d: "grid st1 c = (if c \<in> set ?tr then Some (pid ?p) else grid st c)" for c
    using g1 [THEN spec, of c] by (simp only: trb pidb gb)
  have "grid st1 = grid (painted st i)"
    using g1d by (simp add: painted_def fun_eq_iff)
  moreover have "mapWidth st1 = mapWidth (painted st i)" "mapHeight st1 = mapHeight (painted st i)"
    using f1 wb hb by (simp_all add: frame_def painted_def)
  ultimately have u: "unowned st1 = unowned (painted st i)" and e: "enclosed st1 = enclosed (painted st i)"
    by (rule board_cong)+
  have ff: "{c. unowned st1 c \<and> enclosed st1 c} = floodFilled st i"
    by (simp add: floodFilled_def u e)
  have g2d: "grid st2 c = (if c \<in> floodFilled st i then Some (pid ?p) else grid st1 c)" for c
    using g2 [THEN spec, of c] ff by (simp only: pidb) auto
  have a1: "movePlayer depth st i = Inr ?st'"
    using mv c by simp
  have a2: "\<forall>c. grid ?st' c = (if c \<in> set ?tr \<union> floodFilled st i then Some (pid ?p) else grid st c)"
    using g1d g2d by (simp add: updPlayer_simps)
  have a3: "set (territory (players ?st' ! i)) = set (territory ?p) \<union> set ?tr \<union> floodFilled st i"
    using i2 t2 t1 ff by (simp add: updPlayer_simps trb terb)
  have a4: "trail (players ?st' ! i) = []"
    using i2 by (simp add: updPlayer_simps)
  obtain T where T: "players st2 ! i = (players ?sb ! i)\<lparr>territory := T\<rparr>"
    using f unfolding frame_def by blast
  have a5: "(px (players ?st' ! i), py (players ?st' ! i)) = nextCell ?p"
    using i2 by (simp add: updPlayer_simps T pb)
  have a6: "length (players ?st') = length (players st)"
    using l2 by (simp add: updPlayer_simps)
  have a7: "\<forall>j. j \<noteq> i \<longrightarrow> players ?st' ! j = players st ! j"
  proof (intro allI impI)
    fix j assume j: "j \<noteq> i"
    have "players st2 ! j = players ?sb ! j"
      using f j unfolding frame_def by blast
    then show "players ?st' ! j = players st ! j"
      using j ob [of j] by (simp add: updPlayer_simps)
  qed
  show ?thesis
    using a1 a2 a3 a4 a5 a6 a7 by blast
qed

subsection \<open>One frame of the grid engine\<close>

lemma grows_refl: "grows st st"
  by (simp add: grows_def)

lemma grows_trans:
  assumes "grows a b" "grows b c"
  shows "grows a c"
proof -
  have len: "length (players b) = length (players a)"
    using assms(1) by (simp add: grows_def)
  have "pid (players c ! j) = pid (players a ! j)
        \<and> set (territory (players a ! j)) \<subseteq> set (territory (players c ! j))"
    if "j < length (players a)" for j
  proof -
    have 1: "pid (players b ! j) = pid (players a ! j)
        \<and> set (territory (players a ! j)) \<subseteq> set (territory (players b ! j))"
      using assms(1) that by (simp add: grows_def)
    have 2: "pid (players c ! j) = pid (players b ! j)
        \<and> set (territory (players b ! j)) \<subseteq> set (territory (players c ! j))"
      using assms(2) that len by (simp add: grows_def)
    show ?thesis using 1 2 by auto
  qed
  then show ?thesis
    using assms by (simp add: grows_def)
qed

lemma grows_updPlayer:
  assumes "\<And>p. pid (f p) = pid p" "\<And>p. set (territory p) \<subseteq> set (territory (f p))"
  shows "grows st (updPlayer st i f)"
proof -
  have "pid (players (updPlayer st i f) ! j) = pid (players st ! j)
        \<and> set (territory (players st ! j)) \<subseteq> set (territory (players (updPlayer st i f) ! j))"
    if "j < length (players st)" for j
  proof (cases "j = i")
    case True
    then show ?thesis using that assms by (simp add: updPlayer_simps)
  next
    case False
    then show ?thesis by (simp add: updPlayer_simps)
  qed
  then show ?thesis
    by (simp add: grows_def updPlayer_simps)
qed

lemma frame_grows:
  assumes "frame st st' i" "set (territory (players st ! i)) \<subseteq> set (territory (players st' ! i))"
  shows "grows st st'"
  unfolding grows_def
proof (intro conjI allI impI)
  fix j assume "j < length (players st)"
  show "pid (players st' ! j) = pid (players st ! j)"
    using assms(1) frame_pid [OF assms(1)] unfolding frame_def by (cases "j = i") auto
  show "set (territory (players st ! j)) \<subseteq> set (territory (players st' ! j))"
    using assms unfolding frame_def by (cases "j = i") auto
qed (use assms(1) in \<open>simp_all add: frame_def\<close>)

lemma rowsOk_nth: "rowsOk st \<Longrightarrow> j < length (players st) \<Longrightarrow>
    0 \<le> py (players st ! j) \<and> py (players st ! j) < mapHeight st
    \<and> (\<forall>pos \<in> set (trail (players st ! j)). 0 \<le> snd pos \<and> snd pos < mapHeight st)"
  unfolding rowsOk_def using nth_mem by blast

lemma rowsOk_updPlayer:
  assumes "rowsOk st"
    and "i < length (players st) \<Longrightarrow>
         0 \<le> py (f (players st ! i)) \<and> py (f (players st ! i)) < mapHeight st
         \<and> (\<forall>pos \<in> set (trail (f (players st ! i))). 0 \<le> snd pos \<and> snd pos < mapHeight st)"
  shows "rowsOk (updPlayer st i f)"
proof (cases "i < length (players st)")
  case True
  have "set (players (updPlayer st i f)) \<subseteq> insert (f (players st ! i)) (set (players st))"
    by (simp add: updPlayer_def set_update_subset_insert)
  then show ?thesis
    using assms True unfolding rowsOk_def by (auto simp: updPlayer_simps)
next
  case False
  then have "updPlayer st i f = st" by (simp add: updPlayer_def list_update_beyond)
  then show ?thesis using assms(1) by simp
qed

lemma frame_rowsOk:
  assumes "frame st st' i" "rowsOk st" "i < length (players st)"
  shows "rowsOk st'"
  unfolding rowsOk_def
proof (intro ballI)
  fix p assume "p \<in> set (players st')"
  then obtain j where j: "j < length (players st')" "p = players st' ! j"
    by (auto simp: in_set_conv_nth)
  have jl: "j < length (players st)" using j(1) assms(1) by (simp add: frame_def)
  have h: "mapHeight st' = mapHeight st" using assms(1) by (simp add: frame_def)
  have "py p = py (players st ! j) \<and> trail p = trail (players st ! j)"
    using assms(1) j(2) unfolding frame_def by (cases "j = i") auto
  then show "0 \<le> py p \<and> py p < mapHeight st' \<and>
         (\<forall>pos\<in>set (trail p). 0 \<le> snd pos \<and> snd pos < mapHeight st')"
    using rowsOk_nth [OF assms(2) jl] h by simp
qed

lemma movePlayer_unfold:
  assumes "i < length (players st)"
  shows "movePlayer depth st i =
     (if \<not> isValidMove st (players st ! i) (fst (nextCell (players st ! i))) (snd (nextCell (players st ! i)))
      then eliminatePlayer depth st i
      else if nextCell (players st ! i) \<in> set (territory (players st ! i))
              \<and> trailAfterStep (players st ! i) \<noteq> []
      then claimTerritory (updPlayer st i (\<lambda>p. p\<lparr>trail := trailAfterStep (players st ! i),
              px := fst (nextCell (players st ! i)), py := snd (nextCell (players st ! i))\<rparr>)) i
      else Inr (updPlayer st i (\<lambda>p. p\<lparr>trail := trailAfterStep (players st ! i),
              px := fst (nextCell (players st ! i)), py := snd (nextCell (players st ! i))\<rparr>)))"
proof -
  let ?p = "players st ! i"
  let ?n = "nextCell ?p"
  let ?tr = "trailAfterStep ?p"
  let ?sa = "if \<not> Set_has (territory ?p) (px ?p, py ?p)
             then updPlayer st i (\<lambda>p. p\<lparr>trail := trail p @ [(px p, py p)]\<rparr>) else st"
  let ?sb = "updPlayer ?sa i (\<lambda>p. p\<lparr>px := fst ?n, py := snd ?n\<rparr>)"
  have sb_eq: "?sb = updPlayer st i (\<lambda>p. p\<lparr>trail := ?tr, px := fst ?n, py := snd ?n\<rparr>)"
    using assms by (simp add: updPlayer_def trailAfterStep_def)
  have pb: "players ?sb ! i = ?p\<lparr>trail := ?tr, px := fst ?n, py := snd ?n\<rparr>"
    using assms unfolding sb_eq by (simp add: updPlayer_simps)
  have cond: "(Set_has (territory (players ?sb ! i)) ?n \<and> length (trail (players ?sb ! i)) > 0)
     \<longleftrightarrow> (?n \<in> set (territory ?p) \<and> ?tr \<noteq> [])"
    unfolding pb by (simp add: Set_has_def)
  have "movePlayer depth st i =
     (if \<not> isValidMove st ?p (fst ?n) (snd ?n) then eliminatePlayer depth st i
      else if Set_has (territory (players ?sb ! i)) ?n \<and> length (trail (players ?sb ! i)) > 0
      then claimTerritory ?sb i else Inr ?sb)"
    unfolding movePlayer_def Let_def nextCell_def fst_conv snd_conv ..
  then have "movePlayer depth st i =
     (if \<not> isValidMove st ?p (fst ?n) (snd ?n) then eliminatePlayer depth st i
      else if ?n \<in> set (territory ?p) \<and> ?tr \<noteq> []
      then claimTerritory ?sb i else Inr ?sb)"
    unfolding cond .
  then show ?thesis
    unfolding sb_eq .
qed


lemma movePlayer_total:
  assumes i: "i < length (players st)" and ok: "rowsOk st"
  shows "\<exists>st'. movePlayer (Suc d) st i = Inr st' \<and> grows st st' \<and> rowsOk st'"
proof -
  let ?p = "players st ! i"
  let ?n = "nextCell ?p"
  let ?tr = "trailAfterStep ?p"
  let ?sb = "updPlayer st i (\<lambda>p. p\<lparr>trail := ?tr, px := fst ?n, py := snd ?n\<rparr>)"
  note rp = rowsOk_nth [OF ok i]
  note unf = movePlayer_unfold [OF i, of "Suc d"]
  show ?thesis
  proof (cases "isValidMove st ?p (fst ?n) (snd ?n)")
    case False
    let ?st' = "updPlayer st i (\<lambda>p. p\<lparr>alive := False, trail := []\<rparr>)"
    have "movePlayer (Suc d) st i = Inr ?st'"
      unfolding unf using False i by (simp add: eliminatePlayer_eq)
    moreover have "grows st ?st'"
      by (rule grows_updPlayer) simp_all
    moreover have "rowsOk ?st'"
      using ok rp by (rule_tac rowsOk_updPlayer) simp_all
    ultimately show ?thesis by blast
  next
    case True
    have pb: "players ?sb ! i = ?p\<lparr>trail := ?tr, px := fst ?n, py := snd ?n\<rparr>"
      using i by (simp add: updPlayer_simps)
    have ib: "i < length (players ?sb)" using i by (simp add: updPlayer_simps)
    have rown: "0 \<le> snd ?n \<and> snd ?n < mapHeight st"
      using True by (rule isValidMove_rows)
    have rowtr: "\<forall>pos \<in> set ?tr. 0 \<le> snd pos \<and> snd pos < mapHeight st"
      using rp by (auto simp: trailAfterStep_def)
    have gb: "grows st ?sb"
      by (rule grows_updPlayer) simp_all
    have okb: "rowsOk ?sb"
      using ok rown rowtr by (rule_tac rowsOk_updPlayer) simp_all
    show ?thesis
    proof (cases "?n \<in> set (territory ?p) \<and> ?tr \<noteq> []")
      case False
      have "movePlayer (Suc d) st i = Inr ?sb"
        unfolding unf using True False by (simp only: if_False if_True simp_thms)
      then show ?thesis using gb okb by blast
    next
      case claim: True
      have mv: "movePlayer (Suc d) st i = claimTerritory ?sb i"
        unfolding unf using True claim by simp
      have neb: "trail (players ?sb ! i) \<noteq> []" using claim pb by simp
      have hb: "mapHeight ?sb = mapHeight st" by (simp add: updPlayer_simps)
      have rowsb: "\<forall>pos \<in> set (trail (players ?sb ! i)). 0 \<le> snd pos \<and> snd pos < mapHeight ?sb"
        using rowtr pb hb by simp
      obtain st1 st2 where c: "claimTerritory ?sb i = Inr (updPlayer st2 i (\<lambda>p. p\<lparr>trail := []\<rparr>))"
        and f1: "frame ?sb st1 i" and f2: "frame st1 st2 i"
        and t1: "set (territory (players st1 ! i))
               = set (territory (players ?sb ! i)) \<union> set (trail (players ?sb ! i))"
        and t2: "set (territory (players st2 ! i))
               = set (territory (players st1 ! i)) \<union> {c. unowned st1 c \<and> enclosed st1 c}"
        using claimTerritory_spec [OF ib neb rowsb] by blast
      let ?st' = "updPlayer st2 i (\<lambda>p. p\<lparr>trail := []\<rparr>)"
      have i1: "i < length (players st1)" using f1 ib by (simp add: frame_def)
      have i2: "i < length (players st2)" using f2 i1 by (simp add: frame_def)
      have s1: "set (territory (players ?sb ! i)) \<subseteq> set (territory (players st1 ! i))"
        unfolding t1 by blast
      have s2: "set (territory (players st1 ! i)) \<subseteq> set (territory (players st2 ! i))"
        unfolding t2 by blast
      have g1: "grows ?sb st1" using f1 s1 by (rule frame_grows)
      have g2: "grows st1 st2" using f2 s2 by (rule frame_grows)
      have g3: "grows st2 ?st'" by (rule grows_updPlayer) simp_all
      have gr: "grows st ?st'"
        using gb g1 g2 g3 grows_trans by blast
      have ok1: "rowsOk st1" using f1 okb ib by (rule frame_rowsOk)
      have ok2: "rowsOk st2" using f2 ok1 i1 by (rule frame_rowsOk)
      have ok3: "rowsOk ?st'"
        using ok2 rowsOk_nth [OF ok2 i2] by (rule_tac rowsOk_updPlayer) simp_all
      show ?thesis using mv c gr ok3 by simp
    qed
  qed
qed

lemma randomElement_ok:
  assumes "xs \<noteq> []" "0 \<le> v" "v < 1"
  shows "\<exists>d. randomElement xs v = Inr d"
proof -
  let ?n = "real (length xs)"
  have n: "0 < ?n" using assms(1) by simp
  have "0 \<le> v * ?n" using assms(2) by simp
  then have lo: "0 \<le> \<lfloor>v * ?n\<rfloor>" by simp
  have "v * ?n < ?n" using assms(3) n by simp
  then have "\<lfloor>v * ?n\<rfloor> < int (length xs)"
    by (simp add: floor_less_iff)
  with lo show ?thesis
    by (simp add: randomElement_def Let_def)
qed

lemma rngOk_next: "rngOk r \<Longrightarrow> rngOk (snd (randomNext r))"
  and rngOk_value: "rngOk r \<Longrightarrow> 0 \<le> fst (randomNext r) \<and> fst (randomNext r) < 1"
  by (simp_all add: rngOk_def randomNext_def)

lemma chooseSafeDirection_total:
  assumes "rngOk r"
  shows "\<exists>st' r'. chooseSafeDirection st i r = Inr (st', r')
           \<and> (st' = st \<or> (\<exists>d. st' = updPlayer st i (\<lambda>p. p\<lparr>direction := d\<rparr>)))
           \<and> rngOk r'"
proof -
  let ?player = "players st ! i"
  let ?safe = "filter (\<lambda>dir.
             isValidMove st ?player (px ?player + fst dir) (py ?player + snd dir)
             \<and> \<not> (fst dir = - fst (direction ?player) \<and> snd dir = - snd (direction ?player)))
             directions"
  show ?thesis
  proof (cases "length ?safe > 0")
    case True
    then have "?safe \<noteq> []" by simp
    then obtain d where "randomElement ?safe (fst (randomNext r)) = Inr d"
      using randomElement_ok rngOk_value [OF assms] by blast
    then have "chooseSafeDirection st i r
        = Inr (updPlayer st i (\<lambda>p. p\<lparr>direction := d\<rparr>), snd (randomNext r))"
      using True by (simp add: chooseSafeDirection_def Let_def ebind_def)
    then show ?thesis using rngOk_next [OF assms] by blast
  next
    case False
    then have "chooseSafeDirection st i r = Inr (st, r)"
      by (simp add: chooseSafeDirection_def Let_def)
    then show ?thesis using assms by blast
  qed
qed

lemma updateAI_total:
  assumes "rngOk r"
  shows "\<exists>st' r'. updateAI st i r = Inr (st', r')
           \<and> (st' = st \<or> (\<exists>d. st' = updPlayer st i (\<lambda>p. p\<lparr>direction := d\<rparr>)))
           \<and> rngOk r'"
proof -
  let ?player = "players st ! i"
  note r1 = rngOk_next [OF assms]
  show ?thesis
  proof (cases "fst (direction ?player) = 0 \<and> snd (direction ?player) = 0")
    case True
    have "directions \<noteq> []" by (simp add: directions_def)
    then obtain d where "randomElement directions (fst (randomNext r)) = Inr d"
      using randomElement_ok rngOk_value [OF assms] by blast
    then have "updateAI st i r = Inr (updPlayer st i (\<lambda>p. p\<lparr>direction := d\<rparr>), snd (randomNext r))"
      using True by (simp add: updateAI_def Let_def ebind_def)
    then show ?thesis using r1 by blast
  next
    case False
    note nz = False
    show ?thesis
    proof (cases "isValidMove st ?player (px ?player + fst (direction ?player))
                    (py ?player + snd (direction ?player))")
      case True
      show ?thesis
      proof (cases "fst (randomNext r) < 0.9")
        case lt: True
        have "updateAI st i r = Inr (st, snd (randomNext r))"
          using nz True lt by (auto simp add: updateAI_def Let_def)
        then show ?thesis using r1 by blast
      next
        case ge: False
        have "updateAI st i r = chooseSafeDirection st i (snd (randomNext r))"
          using nz True ge by (auto simp add: updateAI_def Let_def)
        then show ?thesis using chooseSafeDirection_total [OF r1] by simp
      qed
    next
      case False
      have "updateAI st i r = chooseSafeDirection st i r"
        using nz False by (auto simp add: updateAI_def Let_def)
      then show ?thesis using chooseSafeDirection_total [OF assms] by simp
    qed
  qed
qed

lemma forOf_invariant:
  assumes "I s" "\<And>x s. x \<in> set xs \<Longrightarrow> I s \<Longrightarrow> \<exists>s'. f x s = Inr s' \<and> I s'"
  shows "\<exists>s'. forOf xs s f = Inr s' \<and> I s'"
  using assms
proof (induction xs arbitrary: s)
  case Nil
  then show ?case by simp
next
  case (Cons x xs)
  obtain s1 where s1: "f x s = Inr s1" "I s1"
    using Cons.prems(2) [of x s] Cons.prems(1) by auto
  have "\<exists>s'. forOf xs s1 f = Inr s' \<and> I s'"
    using s1(2) Cons.prems(2) by (intro Cons.IH) auto
  then show ?case using s1(1) by simp
qed

lemma dir_grows:
  assumes "st' = st \<or> (\<exists>d. st' = updPlayer st i (\<lambda>p. p\<lparr>direction := d\<rparr>))"
  shows "grows st st'" and "rowsOk st \<Longrightarrow> rowsOk st'"
    and "length (players st') = length (players st)"
proof -
  show "grows st st'"
    using assms grows_refl grows_updPlayer [of "\<lambda>p. p\<lparr>direction := d\<rparr>" for d] by auto
  show "rowsOk st'" if ok: "rowsOk st"
  proof -
    have "rowsOk (updPlayer st i (\<lambda>p. p\<lparr>direction := d\<rparr>))" for d
      using ok rowsOk_nth [OF ok, of i] by (rule_tac rowsOk_updPlayer) simp_all
    then show ?thesis using assms ok by auto
  qed
  show "length (players st') = length (players st)"
    using assms by (auto simp: updPlayer_simps)
qed

lemma updatePlayer_total:
  assumes i: "i < length (players st)" and ok: "rowsOk st" and rng: "rngOk r"
  shows "\<exists>st' r'. updatePlayer (Suc d) t i (st, r) = Inr (st', r')
           \<and> grows st st' \<and> rowsOk st' \<and> rngOk r'"
proof (cases "alive (players st ! i)
      \<and> real_of_int (t - lastMoveTime (players st ! i)) \<ge> moveInterval (players st ! i)")
  case False
  then have "updatePlayer (Suc d) t i (st, r) = Inr (st, r)"
    by (auto simp: updatePlayer_def Let_def)
  then show ?thesis using ok rng grows_refl by blast
next
  case True
  let ?ai = "if \<not> isHuman (players st ! i) then updateAI st i r else Inr (st, r)"
  obtain st1 r1 where ai: "?ai = Inr (st1, r1)"
    and d1: "st1 = st \<or> (\<exists>d. st1 = updPlayer st i (\<lambda>p. p\<lparr>direction := d\<rparr>))"
    and rng1: "rngOk r1"
    using updateAI_total [OF rng, of st i] rng by (cases "isHuman (players st ! i)") auto
  note g1 = dir_grows(1) [OF d1] and ok1 = dir_grows(2) [OF d1 ok] and len1 = dir_grows(3) [OF d1]
  have i1: "i < length (players st1)" using i len1 by simp
  have unf: "updatePlayer (Suc d) t i (st, r) =
      (if fst (direction (players st1 ! i)) \<noteq> 0 \<or> snd (direction (players st1 ! i)) \<noteq> 0
          then ebind (movePlayer (Suc d) st1 i) (\<lambda>st2.
                 Inr (updPlayer st2 i (\<lambda>p. p\<lparr>lastMoveTime := t\<rparr>), r1))
          else Inr (st1, r1))"
    using True ai by (simp add: updatePlayer_def Let_def ebind_def)
  show ?thesis
  proof (cases "fst (direction (players st1 ! i)) \<noteq> 0 \<or> snd (direction (players st1 ! i)) \<noteq> 0")
    case False
    then have "updatePlayer (Suc d) t i (st, r) = Inr (st1, r1)"
      unfolding unf by (simp only: if_False)
    then show ?thesis using g1 ok1 rng1 by blast
  next
    case mv: True
    obtain st2 where m: "movePlayer (Suc d) st1 i = Inr st2" and g2: "grows st1 st2" and ok2: "rowsOk st2"
      using movePlayer_total [OF i1 ok1] by blast
    let ?st' = "updPlayer st2 i (\<lambda>p. p\<lparr>lastMoveTime := t\<rparr>)"
    have i2: "i < length (players st2)" using g2 i1 by (simp add: grows_def)
    have "updatePlayer (Suc d) t i (st, r) = Inr (?st', r1)"
      unfolding unf using mv m by (simp only: if_True ebind_def sum.case)
    moreover have "grows st2 ?st'" by (rule grows_updPlayer) simp_all
    then have "grows st ?st'" using g1 g2 grows_trans by blast
    moreover have "rowsOk ?st'"
      using ok2 rowsOk_nth [OF ok2 i2] by (rule_tac rowsOk_updPlayer) simp_all
    ultimately show ?thesis using rng1 by blast
  qed
qed

lemma updatePlayers_total:
  assumes ok: "rowsOk st" and rng: "rngOk r"
  shows "\<exists>st' r'. updatePlayers (Suc d) st t r = Inr (st', r')
           \<and> grows st st' \<and> rowsOk st' \<and> rngOk r'"
proof -
  let ?I = "\<lambda>sr. grows st (fst sr) \<and> rowsOk (fst sr) \<and> rngOk (snd sr)"
  have "\<exists>s'. forOf [0..<length (players st)] (st, r) (updatePlayer (Suc d) t) = Inr s' \<and> ?I s'"
  proof (rule forOf_invariant)
    show "?I (st, r)" using ok rng grows_refl by simp
  next
    fix x s assume x: "x \<in> set [0..<length (players st)]" and I: "?I s"
    have xl: "x < length (players (fst s))" using x I by (simp add: grows_def)
    obtain st' r' where "updatePlayer (Suc d) t x (fst s, snd s) = Inr (st', r')"
      "grows (fst s) st'" "rowsOk st'" "rngOk r'"
      using updatePlayer_total [OF xl, of "snd s"] I by blast
    then show "\<exists>s'. updatePlayer (Suc d) t x s = Inr s' \<and> ?I s'"
      using I grows_trans by (intro exI [of _ "(st', r')"]) auto
  qed
  then show ?thesis by (auto simp: updatePlayers_def)
qed

lemma grows_terrGrows: "grows st st' \<Longrightarrow> terrGrows st st'"
  unfolding grows_def terrGrows_def
  by (metis in_set_conv_nth)

lemma keepsOwnedI:
  assumes "\<And>c ow. grid st c = Some ow \<Longrightarrow> ow \<noteq> 0 \<Longrightarrow> c \<notin> S \<Longrightarrow> grid st' c = Some ow"
  shows "keepsOwned st st' S"
  unfolding keepsOwned_def using assms by blast

lemma keepsOwnedD:
  "keepsOwned st st' S \<Longrightarrow> grid st c = Some ow \<Longrightarrow> ow \<noteq> 0 \<Longrightarrow> c \<notin> S \<Longrightarrow> grid st' c = Some ow"
  unfolding keepsOwned_def by blast

lemma keepsOwned_same: "grid st' = grid st \<Longrightarrow> keepsOwned st st' S"
  by (simp add: keepsOwned_def)

lemma movePlayer_keeps:
  assumes i: "i < length (players st)" and ok: "rowsOk st"
  shows "\<exists>st'. movePlayer (Suc d) st i = Inr st' \<and> onlyPlayer st st' i
           \<and> keepsOwned st st' (set (trailAfterStep (players st ! i)))"
proof -
  let ?p = "players st ! i"
  let ?n = "nextCell ?p"
  let ?tr = "trailAfterStep ?p"
  let ?sb = "updPlayer st i (\<lambda>p. p\<lparr>trail := ?tr, px := fst ?n, py := snd ?n\<rparr>)"
  note rp = rowsOk_nth [OF ok i]
  note unf = movePlayer_unfold [OF i, of "Suc d"]
  show ?thesis
  proof (cases "isValidMove st ?p (fst ?n) (snd ?n)")
    case False
    let ?st' = "updPlayer st i (\<lambda>p. p\<lparr>alive := False, trail := []\<rparr>)"
    have "movePlayer (Suc d) st i = Inr ?st'"
      unfolding unf using False i by (simp add: eliminatePlayer_eq)
    moreover have "onlyPlayer st ?st' i"
      by (simp add: onlyPlayer_def updPlayer_simps)
    moreover have "keepsOwned st ?st' (set ?tr)"
      by (rule keepsOwned_same) (simp add: updPlayer_simps)
    ultimately show ?thesis by blast
  next
    case True
    have pb: "players ?sb ! i = ?p\<lparr>trail := ?tr, px := fst ?n, py := snd ?n\<rparr>"
      using i by (simp add: updPlayer_simps)
    have ib: "i < length (players ?sb)" using i by (simp add: updPlayer_simps)
    have rowtr: "\<forall>pos \<in> set ?tr. 0 \<le> snd pos \<and> snd pos < mapHeight st"
      using rp by (auto simp: trailAfterStep_def)
    have ob: "onlyPlayer st ?sb i"
      by (simp add: onlyPlayer_def updPlayer_simps)
    have kb: "keepsOwned st ?sb (set ?tr)"
      by (rule keepsOwned_same) (simp add: updPlayer_simps)
    show ?thesis
    proof (cases "?n \<in> set (territory ?p) \<and> ?tr \<noteq> []")
      case False
      have "movePlayer (Suc d) st i = Inr ?sb"
        unfolding unf using True False by (simp only: if_False if_True simp_thms)
      then show ?thesis using ob kb by blast
    next
      case claim: True
      have mv: "movePlayer (Suc d) st i = claimTerritory ?sb i"
        unfolding unf using True claim by simp
      have neb: "trail (players ?sb ! i) \<noteq> []" using claim pb by simp
      have hb: "mapHeight ?sb = mapHeight st" by (simp add: updPlayer_simps)
      have rowsb: "\<forall>pos \<in> set (trail (players ?sb ! i)). 0 \<le> snd pos \<and> snd pos < mapHeight ?sb"
        using rowtr pb hb by simp
      obtain st1 st2 where c: "claimTerritory ?sb i = Inr (updPlayer st2 i (\<lambda>p. p\<lparr>trail := []\<rparr>))"
        and f1: "frame ?sb st1 i" and f2: "frame st1 st2 i"
        and g1: "\<forall>c. grid st1 c = (if c \<in> set (trail (players ?sb ! i))
                                 then Some (pid (players ?sb ! i)) else grid ?sb c)"
        and g2: "\<forall>c. grid st2 c = (if unowned st1 c \<and> enclosed st1 c
                                then Some (pid (players ?sb ! i)) else grid st1 c)"
        using claimTerritory_spec [OF ib neb rowsb] by blast
      let ?st' = "updPlayer st2 i (\<lambda>p. p\<lparr>trail := []\<rparr>)"
      have o': "onlyPlayer st ?st' i"
        using f1 f2 unfolding onlyPlayer_def frame_def by (simp add: updPlayer_simps)
      have k': "keepsOwned st ?st' (set ?tr)"
      proof (rule keepsOwnedI)
        fix c ow assume c: "grid st c = Some ow" "ow \<noteq> 0" "c \<notin> set ?tr"
        have "grid st1 c = grid ?sb c"
          using g1 [THEN spec, of c] c(3) pb by simp
        then have 1: "grid st1 c = Some ow"
          using c(1) by (simp add: updPlayer_simps)
        then have "\<not> unowned st1 c" using c(2) by (simp add: unowned_def)
        then have "grid st2 c = Some ow"
          using g2 [THEN spec, of c] 1 by simp
        then show "grid ?st' c = Some ow" by (simp add: updPlayer_simps)
      qed
      show ?thesis using mv c o' k' by simp
    qed
  qed
qed

lemma keepsOwned_trans: "keepsOwned a b S \<Longrightarrow> keepsOwned b c S \<Longrightarrow> keepsOwned a c S"
  unfolding keepsOwned_def by blast

lemma keepsOwned_mono: "keepsOwned a b S \<Longrightarrow> S \<subseteq> T \<Longrightarrow> keepsOwned a b T"
  unfolding keepsOwned_def by blast

lemma onlyPlayer_trans: "onlyPlayer a b i \<Longrightarrow> onlyPlayer b c i \<Longrightarrow> onlyPlayer a c i"
  unfolding onlyPlayer_def by simp

lemma trailAfterStep_subset:
  "set (trailAfterStep p) \<subseteq> insert (px p, py p) (set (trail p))"
  by (auto simp: trailAfterStep_def)

lemma updatePlayer_keeps:
  assumes i: "i < length (players st)" and ok: "rowsOk st" and rng: "rngOk r"
  shows "\<exists>st' r'. updatePlayer (Suc d) t i (st, r) = Inr (st', r') \<and> onlyPlayer st st' i
           \<and> keepsOwned st st' (insert (px (players st ! i), py (players st ! i))
                                   (set (trail (players st ! i))))"
proof (cases "alive (players st ! i)
      \<and> real_of_int (t - lastMoveTime (players st ! i)) \<ge> moveInterval (players st ! i)")
  case False
  then have "updatePlayer (Suc d) t i (st, r) = Inr (st, r)"
    by (auto simp: updatePlayer_def Let_def)
  then show ?thesis by (auto simp: onlyPlayer_def keepsOwned_def)
next
  case True
  let ?S = "insert (px (players st ! i), py (players st ! i)) (set (trail (players st ! i)))"
  let ?ai = "if \<not> isHuman (players st ! i) then updateAI st i r else Inr (st, r)"
  obtain st1 r1 where ai: "?ai = Inr (st1, r1)"
    and d1: "st1 = st \<or> (\<exists>d. st1 = updPlayer st i (\<lambda>p. p\<lparr>direction := d\<rparr>))"
    using updateAI_total [OF rng, of st i] by (cases "isHuman (players st ! i)") auto
  note ok1 = dir_grows(2) [OF d1 ok] and len1 = dir_grows(3) [OF d1]
  have i1: "i < length (players st1)" using i len1 by simp
  have o1: "onlyPlayer st st1 i"
    using d1 by (auto simp: onlyPlayer_def updPlayer_simps)
  have g1: "grid st1 = grid st"
    using d1 by (auto simp: updPlayer_simps)
  have tr1: "trailAfterStep (players st1 ! i) = trailAfterStep (players st ! i)"
    using d1 i by (auto simp: updPlayer_simps trailAfterStep_def)
  have unf: "updatePlayer (Suc d) t i (st, r) =
      (if fst (direction (players st1 ! i)) \<noteq> 0 \<or> snd (direction (players st1 ! i)) \<noteq> 0
          then ebind (movePlayer (Suc d) st1 i) (\<lambda>st2.
                 Inr (updPlayer st2 i (\<lambda>p. p\<lparr>lastMoveTime := t\<rparr>), r1))
          else Inr (st1, r1))"
    using True ai by (simp add: updatePlayer_def Let_def ebind_def)
  show ?thesis
  proof (cases "fst (direction (players st1 ! i)) \<noteq> 0 \<or> snd (direction (players st1 ! i)) \<noteq> 0")
    case False
    then have "updatePlayer (Suc d) t i (st, r) = Inr (st1, r1)"
      unfolding unf by (simp only: if_False)
    moreover have "keepsOwned st st1 ?S"
      using g1 by (rule keepsOwned_same)
    ultimately show ?thesis using o1 by blast
  next
    case mv: True
    obtain st2 where m: "movePlayer (Suc d) st1 i = Inr st2" and o2: "onlyPlayer st1 st2 i"
      and k2: "keepsOwned st1 st2 (set (trailAfterStep (players st1 ! i)))"
      using movePlayer_keeps [OF i1 ok1] by blast
    let ?st' = "updPlayer st2 i (\<lambda>p. p\<lparr>lastMoveTime := t\<rparr>)"
    have r: "updatePlayer (Suc d) t i (st, r) = Inr (?st', r1)"
      unfolding unf using mv m by (simp only: if_True ebind_def sum.case)
    have "onlyPlayer st2 ?st' i"
      by (simp add: onlyPlayer_def updPlayer_simps)
    then have o': "onlyPlayer st ?st' i"
      using o1 o2 onlyPlayer_trans by blast
    have "keepsOwned st1 st2 ?S"
      using k2 trailAfterStep_subset [of "players st ! i"] unfolding tr1 by (rule keepsOwned_mono)
    then have "keepsOwned st st2 ?S"
      unfolding keepsOwned_def g1 .
    then have k': "keepsOwned st ?st' ?S"
      by (simp add: keepsOwned_def updPlayer_simps)
    show ?thesis using r o' k' by blast
  qed
qed

lemma forOf_append:
  "forOf (xs @ ys) s f = ebind (forOf xs s f) (\<lambda>s'. forOf ys s' f)"
  by (induction xs arbitrary: s) (auto simp: ebind_def split: sum.splits)

lemma forOf_upt_invariant:
  assumes "I 0 s" "\<And>k s. k < n \<Longrightarrow> I k s \<Longrightarrow> \<exists>s'. f k s = Inr s' \<and> I (Suc k) s'"
  shows "\<exists>s'. forOf [0..<n] s f = Inr s' \<and> I n s'"
  using assms(2)
proof (induction n)
  case 0
  then show ?case using assms(1) by simp
next
  case (Suc n)
  obtain s1 where s1: "forOf [0..<n] s f = Inr s1" "I n s1"
    using Suc.IH Suc.prems by (metis less_SucI)
  obtain s2 where s2: "f n s1 = Inr s2" "I (Suc n) s2"
    using Suc.prems [of n s1] s1(2) by auto
  have "forOf [0..<Suc n] s f = Inr s2"
    using s1(1) s2(1) by (simp add: forOf_append ebind_def)
  then show ?case using s2(2) by blast
qed

lemma updatePlayers_spec:
  assumes ok: "rowsOk st" and rng: "rngOk r"
  shows "\<exists>st' r'. updatePlayers (Suc d) st t r = Inr (st', r')
           \<and> grows st st' \<and> rowsOk st' \<and> rngOk r' \<and> keepsOwned st st' (trailCells st)"
proof -
  let ?n = "length (players st)"
  let ?I = "\<lambda>k sr. grows st (fst sr) \<and> rowsOk (fst sr) \<and> rngOk (snd sr)
              \<and> (\<forall>j \<ge> k. players (fst sr) ! j = players st ! j)
              \<and> keepsOwned st (fst sr) (trailCells st)"
  have "\<exists>s'. forOf [0..<?n] (st, r) (updatePlayer (Suc d) t) = Inr s' \<and> ?I ?n s'"
  proof (rule forOf_upt_invariant)
    show "?I 0 (st, r)" using ok rng grows_refl by (simp add: keepsOwned_def)
  next
    fix k s assume k: "k < ?n" and I: "?I k s"
    have kl: "k < length (players (fst s))" using k I by (simp add: grows_def)
    have pk: "players (fst s) ! k = players st ! k" using I by simp
    obtain st' r' where u: "updatePlayer (Suc d) t k (fst s, snd s) = Inr (st', r')"
      and g: "grows (fst s) st'" and ok': "rowsOk st'" and rng': "rngOk r'"
      using updatePlayer_total [OF kl, of "snd s"] I by blast
    obtain st'' r'' where u': "updatePlayer (Suc d) t k (fst s, snd s) = Inr (st'', r'')"
      and o: "onlyPlayer (fst s) st'' k"
      and ko: "keepsOwned (fst s) st'' (insert (px (players (fst s) ! k), py (players (fst s) ! k))
                                   (set (trail (players (fst s) ! k))))"
      using updatePlayer_keeps [OF kl, of "snd s"] I by blast
    have same: "st'' = st'" using u u' by simp
    have "insert (px (players st ! k), py (players st ! k)) (set (trail (players st ! k)))
           \<subseteq> trailCells st"
      using nth_mem [OF k] unfolding trailCells_def by blast
    then have "keepsOwned (fst s) st' (trailCells st)"
      using ko unfolding same pk by (rule keepsOwned_mono [rotated])
    then have k': "keepsOwned st st' (trailCells st)"
      using I keepsOwned_trans by blast
    have rest: "\<forall>j \<ge> Suc k. players st' ! j = players st ! j"
      using o I unfolding same onlyPlayer_def by simp
    have "grows st st'" using I g grows_trans by blast
    then have "?I (Suc k) (st', r')"
      using ok' rng' rest k' by simp
    then show "\<exists>s'. updatePlayer (Suc d) t k s = Inr s' \<and> ?I (Suc k) s'"
      using u by (intro exI [of _ "(st', r')"]) simp
  qed
  then show ?thesis by (auto simp: updatePlayers_def)
qed

lemma checkGameEnd_simps:
  "mapWidth (checkGameEnd st now) = mapWidth st"
  "mapHeight (checkGameEnd st now) = mapHeight st"
  "grid (checkGameEnd st now) = grid st"
  "gameStartTime (checkGameEnd st now) = gameStartTime st"
  "set (players (checkGameEnd st now)) = set (players st)"
  "mset (players (checkGameEnd st now)) = mset (players st)"
  by (simp_all add: checkGameEnd_def showGameOver_def Let_def)

lemma checkGameEnd_running:
  "gameRunning (checkGameEnd st now) \<longleftrightarrow>
     gameRunning st \<and> \<not> (length (filter alive (players st)) \<le> 1 \<or> now - gameStartTime st \<ge> gameTimeLimit)"
  by (simp add: checkGameEnd_def showGameOver_def Let_def)

lemma gameLoop_spec:
  assumes ok: "rowsOk st" and rng: "rngOk r"
  shows "\<exists>st' r'. gameLoop (Suc d) st t now r = Inr (st', r')
           \<and> terrGrows st st' \<and> rowsOk st' \<and> rngOk r' \<and> keepsOwned st st' (trailCells st)
           \<and> (gameRunning st' \<longrightarrow> gameRunning st)
           \<and> (now - gameStartTime st \<ge> gameTimeLimit \<longrightarrow> \<not> gameRunning st')"
proof (cases "gameRunning st")
  case False
  then have "gameLoop (Suc d) st t now r = Inr (st, r)"
    by (simp add: gameLoop_def)
  moreover have "terrGrows st st" using grows_refl by (rule grows_terrGrows)
  moreover have "keepsOwned st st (trailCells st)" by (simp add: keepsOwned_def)
  ultimately show ?thesis using ok rng False by auto
next
  case True
  obtain st1 r1 where u: "updatePlayers (Suc d) st t r = Inr (st1, r1)"
    and g: "grows st st1" and ok1: "rowsOk st1" and rng1: "rngOk r1"
    and k: "keepsOwned st st1 (trailCells st)"
    using updatePlayers_spec [OF ok rng] by blast
  let ?st' = "checkGameEnd st1 now"
  have r: "gameLoop (Suc d) st t now r = Inr (?st', r1)"
    using True u by (simp add: gameLoop_def ebind_def)
  have "terrGrows st st1" using g by (rule grows_terrGrows)
  then have tg: "terrGrows st ?st'"
    by (simp add: terrGrows_def checkGameEnd_simps)
  have ok': "rowsOk ?st'"
    using ok1 by (simp add: rowsOk_def checkGameEnd_simps)
  have k': "keepsOwned st ?st' (trailCells st)"
    using k by (simp add: keepsOwned_def checkGameEnd_simps)
  have st: "gameStartTime st1 = gameStartTime st"
    using g by (simp add: grows_def)
  have e: "now - gameStartTime st \<ge> gameTimeLimit \<longrightarrow> \<not> gameRunning ?st'"
    by (simp add: checkGameEnd_running st)
  show ?thesis using r tg ok' rng1 k' True e by blast
qed

lemma run_stopped:
  assumes "\<not> gameRunning st"
  shows "run depth evs (st, r) = Inr (st, r)"
proof (induction evs)
  case Nil
  then show ?case by simp
next
  case (Cons ev evs)
  then show ?case
    using assms by (cases ev) (simp_all add: gameLoop_def keydown_def ebind_def)
qed

lemma initializeGame_running: "gameRunning (fst (initializeGame st now r))"
  by (simp add: initializeGame_def Let_def)

lemma showGameOver_sorted:
  "sorted (map (\<lambda>p. - int (length (territory p))) (players (showGameOver st)))"
  and showGameOver_mset: "mset (players (showGameOver st)) = mset (players st)"
  by (simp_all add: showGameOver_def)

lemma showGameOver_head:
  assumes "p \<in> set (players st)"
  shows "length (territory p) \<le> length (territory (players (showGameOver st) ! 0))"
proof -
  let ?xs = "players (showGameOver st)"
  let ?k = "\<lambda>p. - int (length (territory p))"
  have s: "sorted (map ?k ?xs)" by (rule showGameOver_sorted)
  have "set ?xs = set (players st)" by (simp add: showGameOver_def)
  then have pin: "p \<in> set ?xs" using assms by simp
  then obtain j where j: "j < length ?xs" "?xs ! j = p"
    by (auto simp: in_set_conv_nth)
  have "map ?k ?xs ! 0 \<le> map ?k ?xs ! j"
    using s j(1) by (intro sorted_nth_mono) simp_all
  moreover have "0 < length ?xs" using j(1) by (cases ?xs) simp_all
  ultimately have "?k (?xs ! 0) \<le> ?k (?xs ! j)"
    using j(1) by (simp only: nth_map)
  then show ?thesis using j(2) by simp
qed

subsection \<open>The claim of a trail in a game\<close>

text \<open>
  On a board of at least 6 rows the four start positions lie in rows of the board, and
  every run of frames and key presses from \<^verbatim>\<open>initializeGame\<close> returns, with every player
  and every trail cell in a row of the board.
\<close>

lemma square_fold:
  "py (snd (fold (\<lambda>d gp. if C d then (G d gp, (snd gp)\<lparr>territory := T d gp\<rparr>) else gp) ds gp))
     = py (snd gp)"
  "trail (snd (fold (\<lambda>d gp. if C d then (G d gp, (snd gp)\<lparr>territory := T d gp\<rparr>) else gp) ds gp))
     = trail (snd gp)"
  by (induction ds arbitrary: gp) simp_all

lemma createPlayer_rows:
  assumes ok: "rowsOk st"
    and y: "0 \<le> snd (startPositions st ! i) \<and> snd (startPositions st ! i) < mapHeight st"
  shows "rowsOk (fst (createPlayer i (st, r)))"
    and "mapHeight (fst (createPlayer i (st, r))) = mapHeight st"
    and "mapWidth (fst (createPlayer i (st, r))) = mapWidth st"
    and "players (fst (createPlayer i (st, r))) \<noteq> []"
proof -
  show "mapHeight (fst (createPlayer i (st, r))) = mapHeight st"
    and "mapWidth (fst (createPlayer i (st, r))) = mapWidth st"
    and "players (fst (createPlayer i (st, r))) \<noteq> []"
    by (simp_all add: createPlayer_def Let_def)
  show "rowsOk (fst (createPlayer i (st, r)))"
    using ok y unfolding rowsOk_def
    by (auto simp: createPlayer_def Let_def square_fold)
qed

lemma createPlayer_rng:
  "rngOk r \<Longrightarrow> rngOk (snd (createPlayer i (st, r)))"
  using rngOk_next [of r] by (simp add: createPlayer_def Let_def)

lemma initializeGame_rows:
  assumes "6 \<le> mapHeight g0" and "rngOk r"
  shows "rowsOk (fst (initializeGame g0 now r))"
    and "players (fst (initializeGame g0 now r)) \<noteq> []"
    and "rngOk (snd (initializeGame g0 now r))"
proof -
  let ?s0 = "g0\<lparr>grid := (\<lambda>c. if 0 \<le> fst c \<and> fst c < mapWidth g0 \<and> 0 \<le> snd c \<and> snd c < mapHeight g0
                               then Some 0 else None),
                players := []\<rparr>"
  have pos: "0 \<le> snd (startPositions st ! i) \<and> snd (startPositions st ! i) < mapHeight st"
    if "mapHeight st = mapHeight g0" "i < 4" for st i
  proof -
    have "i = 0 \<or> i = 1 \<or> i = 2 \<or> i = 3" using that(2) by arith
    then show ?thesis using assms(1) that(1) by (auto simp: startPositions_def)
  qed
  have step: "rowsOk (fst (createPlayer i sr)) \<and> mapHeight (fst (createPlayer i sr)) = mapHeight g0
        \<and> players (fst (createPlayer i sr)) \<noteq> [] \<and> rngOk (snd (createPlayer i sr))"
    if "rowsOk (fst sr)" "mapHeight (fst sr) = mapHeight g0" "rngOk (snd sr)" "i < 4" for sr i
  proof -
    obtain st r0 where sr: "sr = (st, r0)" by (cases sr)
    show ?thesis
      unfolding sr
      using createPlayer_rows [of st i r0] createPlayer_rng [of r0 i st] pos [of st i] that
      by (simp add: sr)
  qed
  have r0: "rowsOk ?s0" by (simp add: rowsOk_def)
  let ?s1 = "createPlayer 0 (?s0, r)"
  let ?s2 = "createPlayer 1 ?s1"
  let ?s3 = "createPlayer 2 ?s2"
  let ?s4 = "createPlayer 3 ?s3"
  have 1: "rowsOk (fst ?s1) \<and> mapHeight (fst ?s1) = mapHeight g0
        \<and> players (fst ?s1) \<noteq> [] \<and> rngOk (snd ?s1)"
    using r0 assms(2) by (intro step) simp_all
  have 2: "rowsOk (fst ?s2) \<and> mapHeight (fst ?s2) = mapHeight g0
        \<and> players (fst ?s2) \<noteq> [] \<and> rngOk (snd ?s2)"
    using 1 by (intro step) simp_all
  have 3: "rowsOk (fst ?s3) \<and> mapHeight (fst ?s3) = mapHeight g0
        \<and> players (fst ?s3) \<noteq> [] \<and> rngOk (snd ?s3)"
    using 2 by (intro step) simp_all
  have 4: "rowsOk (fst ?s4) \<and> mapHeight (fst ?s4) = mapHeight g0
        \<and> players (fst ?s4) \<noteq> [] \<and> rngOk (snd ?s4)"
    using 3 by (intro step) simp_all
  have upt4: "[0..<4] = [0, 1, 2, Suc 2]"
    by (simp add: upt_rec)
  have f: "fold createPlayer [0..<4] (?s0, r) = ?s4"
    unfolding upt4 by (simp add: numeral_3_eq_3 [symmetric])
  have ini: "initializeGame g0 now r
      = ((fst ?s4)\<lparr>gameRunning := True, gameStartTime := now\<rparr>, snd ?s4)"
    unfolding initializeGame_def Let_def f ..
  have upd: "rowsOk (st\<lparr>gameRunning := True, gameStartTime := now\<rparr>) = rowsOk st"
    "players (st\<lparr>gameRunning := True, gameStartTime := now\<rparr>) = players st" for st
    by (simp_all add: rowsOk_def)
  show "rowsOk (fst (initializeGame g0 now r))"
    unfolding ini fst_conv upd using 4 by (elim conjE)
  show "players (fst (initializeGame g0 now r)) \<noteq> []"
    unfolding ini fst_conv upd using 4 by (elim conjE)
  show "rngOk (snd (initializeGame g0 now r))"
    unfolding ini snd_conv using 4 by (elim conjE)
qed

lemma terrGrows_nonempty: "terrGrows st st' \<Longrightarrow> players st \<noteq> [] \<Longrightarrow> players st' \<noteq> []"
  unfolding terrGrows_def by (cases "players st") auto

lemma keydown_rows:
  assumes "rowsOk st" "players st \<noteq> []"
  shows "\<exists>st'. keydown st key = Inr st' \<and> rowsOk st' \<and> players st' \<noteq> []"
proof -
  have "rowsOk (updPlayer st 0 (\<lambda>p. p\<lparr>direction := dd\<rparr>))" for dd
    using assms(1) by (rule rowsOk_updPlayer) (use assms(1) rowsOk_nth in auto)
  moreover have "players (updPlayer st 0 f) \<noteq> []" for f
    using assms(2) by (simp add: updPlayer_def)
  ultimately show ?thesis
    using assms by (simp add: keydown_def Let_def)
qed

lemma run_rows:
  assumes "rowsOk st" "rngOk r" "players st \<noteq> []"
  shows "\<exists>st' r'. run (Suc d) evs (st, r) = Inr (st', r') \<and> rowsOk st' \<and> rngOk r'"
  using assms
proof (induction evs arbitrary: st r)
  case Nil
  then show ?case by simp
next
  case (Cons ev evs)
  show ?case
  proof (cases ev)
    case (Frame t now)
    obtain st1 r1 where g: "gameLoop (Suc d) st t now r = Inr (st1, r1)"
      and tg: "terrGrows st st1" and ok1: "rowsOk st1" and rng1: "rngOk r1"
      using gameLoop_spec [OF Cons.prems(1,2), of d t now] by blast
    have ne1: "players st1 \<noteq> []"
      using tg Cons.prems(3) by (rule terrGrows_nonempty)
    from Cons.IH [OF ok1 rng1 ne1] show ?thesis
      by (simp add: Frame g ebind_def)
  next
    case (KeyDown key)
    obtain st1 where k: "keydown st key = Inr st1" and ok1: "rowsOk st1" and ne1: "players st1 \<noteq> []"
      using keydown_rows [OF Cons.prems(1,3), of key] by blast
    from Cons.IH [OF ok1 Cons.prems(2) ne1] show ?thesis
      by (simp add: KeyDown k ebind_def)
  qed
qed

lemma rowsOk_trailAfterStep:
  assumes "rowsOk st" "i < length (players st)"
  shows "\<forall>pos \<in> set (trailAfterStep (players st ! i)). 0 \<le> snd pos \<and> snd pos < mapHeight st"
  using rowsOk_nth [OF assms] unfolding trailAfterStep_def by (auto split: if_splits)

lemma updateAI_rows:
  assumes "rowsOk st" "rngOk r"
  shows "\<exists>st' r'. updateAI st i r = Inr (st', r') \<and> rowsOk st' \<and> rngOk r'
           \<and> length (players st') = length (players st)"
proof -
  obtain st' r' where u: "updateAI st i r = Inr (st', r')"
    and d: "st' = st \<or> (\<exists>d. st' = updPlayer st i (\<lambda>p. p\<lparr>direction := d\<rparr>))"
    and r: "rngOk r'"
    using updateAI_total [OF assms(2), of st i] by blast
  show ?thesis
    using u r dir_grows(2) [OF d assms(1)] dir_grows(3) [OF d] by blast
qed

lemma exGame_painted:
  "unowned (painted exGame 1) = unowned exGameClaim"
  "enclosed (painted exGame 1) = enclosed exGameClaim"
proof -
  have tr: "trailAfterStep (players exGame ! 1) = [(3, 2), (3, 3), (2, 3)]"
    by (simp add: exGame_def trailAfterStep_def exQ_def Set_has_def)
  have pidq: "pid (players exGame ! 1) = 2"
    by (simp add: exGame_def exQ_def)
  have g: "grid (painted exGame 1) = grid exGameClaim"
    unfolding painted_def tr pidq by (simp add: exGameClaim_def)
  have w: "mapWidth (painted exGame 1) = mapWidth exGameClaim"
    and h: "mapHeight (painted exGame 1) = mapHeight exGameClaim"
    by (simp_all add: painted_def exGameClaim_def)
  show "unowned (painted exGame 1) = unowned exGameClaim"
    and "enclosed (painted exGame 1) = enclosed exGameClaim"
    using g w h by (rule board_cong)+
qed

lemma exGame_floodFilled: "(2, 2) \<in> floodFilled exGame 1" "(0, 0) \<notin> floodFilled exGame 1"
proof -
  have u22: "unowned exGameClaim (2, 2)" and u00: "unowned exGameClaim (0, 0)"
    by (simp_all add: unowned_def isValidPosition_def exGameClaim_def exGame_def)
  have nb: "\<not> isBorder exGameClaim (2, 2)" "\<not> isBorder exGameClaim (2, 1)"
    and b00: "isBorder exGameClaim (0, 0)"
    by (simp_all add: isBorder_def exGameClaim_def exGame_def)
  have "enclosed exGameClaim (2, 2)"
    unfolding enclosed_def
  proof (intro allI impI)
    fix d assume "sameRegion exGameClaim (2, 2) d"
    then have "d \<in> {(2, 2), (2, 1)}" by (rule exGameClaim_region)
    then have "d = (2, 2) \<or> d = (2, 1)" by simp
    then show "\<not> isBorder exGameClaim d"
      using nb by (elim disjE) simp_all
  qed
  then show "(2, 2) \<in> floodFilled exGame 1"
    unfolding floodFilled_def exGame_painted using u22 by simp
  have "sameRegion exGameClaim (0, 0) (0, 0)"
    by (simp add: sameRegion_def conn_refl)
  then have "\<not> enclosed exGameClaim (0, 0)"
    using b00 unfolding enclosed_def by blast
  then show "(0, 0) \<notin> floodFilled exGame 1"
    unfolding floodFilled_def exGame_painted by simp
qed

text \<open>
  C3. A player makes a valid step onto a cell of its territory, and its trail, with the
  cell it leaves if that is outside its territory, is not empty and lies in rows of the
  board. Then the step returns; every cell of that trail has the player's id as owner and
  is in its territory set; the flood fill has run on the board so painted: the unowned
  cells of enclosed regions of the painted board have the player's id as owner and are
  in its territory set; every other cell has the owner it had; the trail is empty, the
  player stands on the cell it stepped to, and no other player has changed.

  The rows are there in a game on a board of at least 6 rows: every run from
  \<^verbatim>\<open>initializeGame\<close> returns in a state where every player and every trail cell lies in
  a row of the board (\<open>rowsOk\<close>); and in such a state the trail of a player with the cell
  it leaves lies in rows, and \<^verbatim>\<open>updateAI\<close> and the whole turn of a player in
  \<^verbatim>\<open>updatePlayers\<close> return in such a state again, so that \<^verbatim>\<open>movePlayer\<close> is only called in
  such states.
\<close>

theorem movePlayer_claim:
  "(i < length (players st)
    \<and> isValidMove st (players st ! i) (fst (nextCell (players st ! i))) (snd (nextCell (players st ! i)))
    \<and> nextCell (players st ! i) \<in> set (territory (players st ! i))
    \<and> trailAfterStep (players st ! i) \<noteq> []
    \<and> (\<forall>pos \<in> set (trailAfterStep (players st ! i)). 0 \<le> snd pos \<and> snd pos < mapHeight st)
    \<longrightarrow> (\<exists>st'. movePlayer depth st i = Inr st'
           \<and> (\<forall>c. grid st' c = (if c \<in> set (trailAfterStep (players st ! i)) \<union> floodFilled st i
                                 then Some (pid (players st ! i)) else grid st c))
           \<and> set (territory (players st' ! i))
               = set (territory (players st ! i)) \<union> set (trailAfterStep (players st ! i))
                 \<union> floodFilled st i
           \<and> trail (players st' ! i) = []
           \<and> (px (players st' ! i), py (players st' ! i)) = nextCell (players st ! i)
           \<and> length (players st') = length (players st)
           \<and> (\<forall>j. j \<noteq> i \<longrightarrow> players st' ! j = players st ! j)))
   \<and> (6 \<le> mapHeight g0 \<and> rngOk r
    \<longrightarrow> (\<exists>g r'. run (Suc d) evs (initializeGame g0 now r) = Inr (g, r') \<and> rowsOk g \<and> rngOk r'))
   \<and> (rowsOk g \<and> rngOk r \<and> j < length (players g)
    \<longrightarrow> (\<forall>pos \<in> set (trailAfterStep (players g ! j)). 0 \<le> snd pos \<and> snd pos < mapHeight g)
        \<and> (\<exists>g' r'. updateAI g j r = Inr (g', r') \<and> rowsOk g' \<and> rngOk r'
               \<and> length (players g') = length (players g))
        \<and> (\<exists>g' r'. updatePlayer (Suc d) t j (g, r) = Inr (g', r') \<and> rowsOk g' \<and> rngOk r'
               \<and> length (players g') = length (players g)))"
proof (intro conjI impI)
  assume h: "i < length (players st)
    \<and> isValidMove st (players st ! i) (fst (nextCell (players st ! i))) (snd (nextCell (players st ! i)))
    \<and> nextCell (players st ! i) \<in> set (territory (players st ! i))
    \<and> trailAfterStep (players st ! i) \<noteq> []
    \<and> (\<forall>pos \<in> set (trailAfterStep (players st ! i)). 0 \<le> snd pos \<and> snd pos < mapHeight st)"
  show "\<exists>st'. movePlayer depth st i = Inr st'
           \<and> (\<forall>c. grid st' c = (if c \<in> set (trailAfterStep (players st ! i)) \<union> floodFilled st i
                                 then Some (pid (players st ! i)) else grid st c))
           \<and> set (territory (players st' ! i))
               = set (territory (players st ! i)) \<union> set (trailAfterStep (players st ! i))
                 \<union> floodFilled st i
           \<and> trail (players st' ! i) = []
           \<and> (px (players st' ! i), py (players st' ! i)) = nextCell (players st ! i)
           \<and> length (players st') = length (players st)
           \<and> (\<forall>j. j \<noteq> i \<longrightarrow> players st' ! j = players st ! j)"
    using h by (intro movePlayer_claim_effect) (elim conjE, assumption)+
next
  assume h: "6 \<le> mapHeight g0 \<and> rngOk r"
  note ini = initializeGame_rows [of g0 r now]
  obtain s0 r0 where sr: "initializeGame g0 now r = (s0, r0)"
    by (cases "initializeGame g0 now r")
  have "rowsOk s0" "rngOk r0" "players s0 \<noteq> []"
    using ini h by (simp_all add: sr)
  then show "\<exists>g r'. run (Suc d) evs (initializeGame g0 now r) = Inr (g, r') \<and> rowsOk g \<and> rngOk r'"
    unfolding sr by (rule run_rows)
next
  assume h: "rowsOk g \<and> rngOk r \<and> j < length (players g)"
  show "\<forall>pos \<in> set (trailAfterStep (players g ! j)). 0 \<le> snd pos \<and> snd pos < mapHeight g"
    using h by (intro rowsOk_trailAfterStep) simp_all
  show "\<exists>g' r'. updateAI g j r = Inr (g', r') \<and> rowsOk g' \<and> rngOk r'
               \<and> length (players g') = length (players g)"
    using h by (intro updateAI_rows) simp_all
  obtain g' r' where u: "updatePlayer (Suc d) t j (g, r) = Inr (g', r')"
    and gr: "grows g g'" and ok: "rowsOk g'" and rng: "rngOk r'"
    using updatePlayer_total [of j g r d t] h by blast
  have "length (players g') = length (players g)"
    using gr by (simp add: grows_def)
  then show "\<exists>g' r'. updatePlayer (Suc d) t j (g, r) = Inr (g', r') \<and> rowsOk g' \<and> rngOk r'
               \<and> length (players g') = length (players g)"
    using u ok rng by blast
qed

theorem movePlayer_claim_witness:
  "1 < length (players exGame)
   \<and> isValidMove exGame exQ 1 3 \<and> nextCell exQ = (1, 3) \<and> (1, 3) \<in> set (territory exQ)
   \<and> trailAfterStep exQ = [(3, 2), (3, 3), (2, 3)]
   \<and> (2, 2) \<in> floodFilled exGame 1 \<and> (0, 0) \<notin> floodFilled exGame 1
   \<and> (\<exists>st'. movePlayer 1 exGame 1 = Inr st' \<and> trail (players st' ! 1) = []
          \<and> grid st' (3, 2) = Some 2 \<and> grid st' (2, 2) = Some 2 \<and> grid st' (0, 0) = Some 0
          \<and> (2, 2) \<in> set (territory (players st' ! 1))
          \<and> players st' ! 0 = exP)
   \<and> 6 \<le> mapHeight exCanvas \<and> rngOk exRng
   \<and> (\<exists>g r'. run 1 [Frame 1000 1000, KeyDown ''ArrowUp'', Frame 1100 1100]
                 (initializeGame exCanvas 1000 exRng) = Inr (g, r') \<and> rowsOk g)
   \<and> rowsOk exGame
   \<and> (\<exists>g' r'. updatePlayer 1 150 1 (exGame, exRng) = Inr (g', r') \<and> rowsOk g')"
proof -
  have len: "1 < length (players exGame)" and q: "players exGame ! 1 = exQ"
    and p: "players exGame ! 0 = exP"
    by (simp_all add: exGame_def)
  have nc: "nextCell exQ = (1, 3)"
    by (simp add: nextCell_def exQ_def)
  have tr: "trailAfterStep exQ = [(3, 2), (3, 3), (2, 3)]"
    by (simp add: trailAfterStep_def exQ_def Set_has_def)
  have valid: "isValidMove exGame exQ 1 3"
    by (simp add: isValidMove_def exGame_def exQ_def exP_def trailSome_def)
  have home: "(1, 3) \<in> set (territory exQ)"
    by (simp add: exQ_def)
  have pidq: "pid exQ = 2"
    by (simp add: exQ_def)
  have g00: "grid exGame (0, 0) = Some 0"
    by (simp add: exGame_def)
  have h6: "6 \<le> mapHeight exCanvas"
    by (simp add: exCanvas_def)
  have rng: "rngOk exRng"
    by (simp add: rngOk_def exRng_def)
  have ok: "rowsOk exGame"
    by (simp add: rowsOk_def exGame_def exP_def exQ_def)
  note inst = movePlayer_claim [where st = exGame and i = 1 and depth = 1 and ?g0.0 = exCanvas
      and r = exRng and d = 0 and now = 1000 and g = exGame and j = 1 and t = 150
      and evs = "[Frame 1000 1000, KeyDown ''ArrowUp'', Frame 1100 1100]"]
  have hyp: "1 < length (players exGame)
    \<and> isValidMove exGame (players exGame ! 1) (fst (nextCell (players exGame ! 1)))
        (snd (nextCell (players exGame ! 1)))
    \<and> nextCell (players exGame ! 1) \<in> set (territory (players exGame ! 1))
    \<and> trailAfterStep (players exGame ! 1) \<noteq> []
    \<and> (\<forall>pos \<in> set (trailAfterStep (players exGame ! 1)). 0 \<le> snd pos \<and> snd pos < mapHeight exGame)"
    unfolding q nc tr using len valid home by (simp add: exGame_def)
  obtain st' where r: "movePlayer 1 exGame 1 = Inr st'"
    and g: "\<forall>c. grid st' c = (if c \<in> set (trailAfterStep (players exGame ! 1)) \<union> floodFilled exGame 1
                                 then Some (pid (players exGame ! 1)) else grid exGame c)"
    and t: "set (territory (players st' ! 1))
               = set (territory (players exGame ! 1)) \<union> set (trailAfterStep (players exGame ! 1))
                 \<union> floodFilled exGame 1"
    and e: "trail (players st' ! 1) = []"
    and o: "\<forall>j. j \<noteq> 1 \<longrightarrow> players st' ! j = players exGame ! j"
    using inst hyp by blast
  have g32: "grid st' (3, 2) = Some 2"
    using g [THEN spec, of "(3, 2)"] unfolding q tr pidq by simp
  have g22: "grid st' (2, 2) = Some 2"
    using g [THEN spec, of "(2, 2)"] exGame_floodFilled(1) unfolding q tr pidq by simp
  have g0: "grid st' (0, 0) = Some 0"
    using g [THEN spec, of "(0, 0)"] exGame_floodFilled(2) g00 unfolding q tr pidq by simp
  have t22: "(2, 2) \<in> set (territory (players st' ! 1))"
    unfolding t using exGame_floodFilled(1) by simp
  have p0: "players st' ! 0 = exP"
    using o [THEN spec, of 0] p by simp
  have first: "\<exists>st'. movePlayer 1 exGame 1 = Inr st' \<and> trail (players st' ! 1) = []
          \<and> grid st' (3, 2) = Some 2 \<and> grid st' (2, 2) = Some 2 \<and> grid st' (0, 0) = Some 0
          \<and> (2, 2) \<in> set (territory (players st' ! 1))
          \<and> players st' ! 0 = exP"
    using r e g32 g22 g0 t22 p0 by blast
  have second: "\<exists>g r'. run 1 [Frame 1000 1000, KeyDown ''ArrowUp'', Frame 1100 1100]
                 (initializeGame exCanvas 1000 exRng) = Inr (g, r') \<and> rowsOk g"
    using inst h6 rng by (simp only: One_nat_def) blast
  have third: "\<exists>g' r'. updatePlayer 1 150 1 (exGame, exRng) = Inr (g', r') \<and> rowsOk g'"
    using inst ok rng len by (simp only: One_nat_def) blast
  show ?thesis
    using len valid nc home tr exGame_floodFilled first h6 rng second ok third by (intro conjI)
qed


text \<open>
  Without the rows the step raises. On the board of 5 rows the second player starts at
  (14,5), below the board, with the territory (13,4), (14,4), (15,4). In the first frame
  \<^verbatim>\<open>updateAI\<close> turns it upwards: the step to (14,4) is valid and leads onto its territory,
  the trail is then [(14,5)], and \<^verbatim>\<open>this.grid[5][14] = player.id\<close> is a \<^verbatim>\<open>TypeError\<close>,
  which ends the frame.
\<close>

theorem movePlayer_claim_counterexample:
  "1 < length (players exLow)
   \<and> isValidMove exLow (players exLow ! 1) 14 4
   \<and> nextCell (players exLow ! 1) = (14, 4)
   \<and> (14, 4) \<in> set (territory (players exLow ! 1))
   \<and> trailAfterStep (players exLow ! 1) = [(14, 5)]
   \<and> raised (movePlayer 1 exLow 1) = Some TypeError
   \<and> raised (run 1 [Frame 1000 1000] (initializeGame exLowCanvas 1000 exEighth)) = Some TypeError"
  by code_simp


section \<open>Properties of the continuous engine\<close>

lemma updPlayer_s_simps:
  "canvasWidth (updPlayer_s st i f) = canvasWidth st"
  "canvasHeight (updPlayer_s st i f) = canvasHeight st"
  "gameRunning_s (updPlayer_s st i f) = gameRunning_s st"
  "gameStartTime_s (updPlayer_s st i f) = gameStartTime_s st"
  "lastFrameTime (updPlayer_s st i f) = lastFrameTime st"
  "length (players_s (updPlayer_s st i f)) = length (players_s st)"
  "i < length (players_s st) \<Longrightarrow> players_s (updPlayer_s st i f) ! i = f (players_s st ! i)"
  "j \<noteq> i \<Longrightarrow> players_s (updPlayer_s st i f) ! j = players_s st ! j"
  by (simp_all add: updPlayer_s_def)

text \<open>
  C9. For a segment whose endpoints coincide the result is the distance from the point to
  that endpoint, and no quotient is formed; for every input the result is a number, not
  negative: the quotient by the squared length is formed only when the length is not 0.
\<close>

theorem distanceToLineSegment_guarded:
  "(p1 = p2 \<longrightarrow>
      distanceToLineSegment ptx pty p1 p2 = Some (sqrt ((ptx - fst p1)\<^sup>2 + (pty - snd p1)\<^sup>2)))
   \<and> (\<exists>d. distanceToLineSegment ptx pty p1 p2 = Some d \<and> 0 \<le> d)"
proof -
  let ?dx = "fst p2 - fst p1" and ?dy = "snd p2 - snd p1"
  let ?len = "sqrt (?dx * ?dx + ?dy * ?dy)"
  have a: "distanceToLineSegment ptx pty p1 p2 = Some (sqrt ((ptx - fst p1)\<^sup>2 + (pty - snd p1)\<^sup>2))"
    if "p1 = p2"
    using that by (simp add: distanceToLineSegment_def)
  have b: "\<exists>d. distanceToLineSegment ptx pty p1 p2 = Some d \<and> 0 \<le> d"
  proof (cases "?len = 0")
    case True
    then show ?thesis by (simp add: distanceToLineSegment_def Let_def)
  next
    case False
    then have "?len * ?len \<noteq> 0" by simp
    then show ?thesis
      using False by (simp add: distanceToLineSegment_def Let_def jsDiv_def)
  qed
  show ?thesis using a b by blast
qed

theorem distanceToLineSegment_guarded_witness:
  "distanceToLineSegment 3 4 (0, 0) (0, 0) = Some 5"
proof -
  have "distanceToLineSegment 3 4 (0, 0) (0, 0) = Some (sqrt ((3 - fst (0::real, 0::real))\<^sup>2 + (4 - snd (0::real, 0::real))\<^sup>2))"
    using distanceToLineSegment_guarded [of "(0, 0)" "(0, 0)" 3 4] by blast
  moreover have "sqrt ((3::real)\<^sup>2 + 4\<^sup>2) = 5"
    by (rule real_sqrt_unique) simp_all
  ultimately show ?thesis by simp
qed

text \<open>
  C8. With fewer than 3 points the trail is emptied and the list of polygons is as before;
  with 3 points or more the position is appended to the trail, the resulting points are
  appended as one polygon, and the trail is emptied.
\<close>

theorem closeTrail_cases:
  assumes "i < length (players_s st)"
  shows "(length (trail_s (players_s st ! i)) < 3 \<longrightarrow>
            closeTrail st i = updPlayer_s st i (\<lambda>p. p\<lparr>trail_s := []\<rparr>)
            \<and> trail_s (players_s (closeTrail st i) ! i) = []
            \<and> territory_s (players_s (closeTrail st i) ! i) = territory_s (players_s st ! i))
       \<and> (length (trail_s (players_s st ! i)) \<ge> 3 \<longrightarrow>
            closeTrail st i = updPlayer_s st i (\<lambda>p. p\<lparr>
                territory_s := territory_s p @ [trail_s p @ [(x_s p, y_s p)]], trail_s := []\<rparr>)
            \<and> trail_s (players_s (closeTrail st i) ! i) = []
            \<and> territory_s (players_s (closeTrail st i) ! i)
                = territory_s (players_s st ! i)
                  @ [trail_s (players_s st ! i) @ [(x_s (players_s st ! i), y_s (players_s st ! i))]])"
proof -
  let ?p = "players_s st ! i"
  have short: "closeTrail st i = updPlayer_s st i (\<lambda>p. p\<lparr>trail_s := []\<rparr>)"
    if "length (trail_s ?p) < 3"
    using that by (simp add: closeTrail_def)
  have long: "closeTrail st i = updPlayer_s st i (\<lambda>p. p\<lparr>
                territory_s := territory_s p @ [trail_s p @ [(x_s p, y_s p)]], trail_s := []\<rparr>)"
    if "length (trail_s ?p) \<ge> 3"
    using that assms
    by (simp add: closeTrail_def Let_def findTerritoryConnection_def updPlayer_s_def)
  show ?thesis
    using short long assms by (auto simp: updPlayer_s_simps)
qed

theorem closeTrail_cases_witness:
  "0 < length (players_s exGame_s) \<and> length (trail_s (players_s exGame_s ! 0)) < 3
   \<and> trail_s (players_s (closeTrail exGame_s 0) ! 0) = []
   \<and> territory_s (players_s (closeTrail exGame_s 0) ! 0) = territory_s exS1
   \<and> 1 < length (players_s exGame_s) \<and> 3 \<le> length (trail_s (players_s exGame_s ! 1))
   \<and> trail_s (players_s (closeTrail exGame_s 1) ! 1) = []
   \<and> territory_s (players_s (closeTrail exGame_s 1) ! 1)
       = territory_s exS2 @ [[(150, 500), (150, 560), (130, 560), (130, 500)]]"
proof -
  have l0: "0 < length (players_s exGame_s)" and l1: "1 < length (players_s exGame_s)"
    and p0: "players_s exGame_s ! 0 = exS1" and p1: "players_s exGame_s ! 1 = exS2"
    by (simp_all add: exGame_s_def)
  have short: "length (trail_s (players_s exGame_s ! 0)) < 3"
    unfolding p0 by (simp add: exS1_def)
  have long: "3 \<le> length (trail_s (players_s exGame_s ! 1))"
    unfolding p1 by (simp add: exS2_def)
  have a: "trail_s (players_s (closeTrail exGame_s 0) ! 0) = []
      \<and> territory_s (players_s (closeTrail exGame_s 0) ! 0) = territory_s (players_s exGame_s ! 0)"
    using closeTrail_cases [OF l0] short by blast
  have b: "trail_s (players_s (closeTrail exGame_s 1) ! 1) = []
      \<and> territory_s (players_s (closeTrail exGame_s 1) ! 1)
          = territory_s (players_s exGame_s ! 1)
            @ [trail_s (players_s exGame_s ! 1)
               @ [(x_s (players_s exGame_s ! 1), y_s (players_s exGame_s ! 1))]]"
    using closeTrail_cases [OF l1] long by blast
  have "trail_s exS2 @ [(x_s exS2, y_s exS2)] = [(150, 500), (150, 560), (130, 560), (130, 500)]"
    by (simp add: exS2_def)
  then show ?thesis
    using l0 l1 short long a b unfolding p0 p1 by simp
qed

subsection \<open>checkCollisions\<close>

lemma collideOthers_spec:
  "collideOthers i js st =
     (if \<exists>j \<in> set js. id_s (players_s st ! j) \<noteq> id_s (players_s st ! i) \<and> alive_s (players_s st ! j)
           \<and> isPointNearTrail (x_s (players_s st ! i)) (y_s (players_s st ! i))
                (trail_s (players_s st ! j)) playerSize
      then eliminatePlayer_s st i else st)"
  by (induction js) (auto simp: Let_def)

lemma ex_nth_iff: "(\<exists>j \<in> set [0..<length xs]. P (xs ! j)) \<longleftrightarrow> (\<exists>q \<in> set xs. P q)"
proof
  assume "\<exists>j \<in> set [0..<length xs]. P (xs ! j)"
  then obtain j where "j < length xs" "P (xs ! j)" by auto
  then show "\<exists>q \<in> set xs. P q" using nth_mem by blast
next
  assume "\<exists>q \<in> set xs. P q"
  then obtain j where "j < length xs" "P (xs ! j)" by (auto simp: in_set_conv_nth)
  then have "j \<in> set [0..<length xs]" by simp
  then show "\<exists>j \<in> set [0..<length xs]. P (xs ! j)" using \<open>P (xs ! j)\<close> by blast
qed

lemma checkCollision_spec:
  assumes i: "i < length (players_s st)" and al: "alive_s (players_s st ! i)"
  shows "checkCollision i st = (if collides st i then eliminatePlayer_s st i else st)"
proof -
  let ?p = "players_s st ! i"
  let ?oob = "x_s ?p < 0 \<or> x_s ?p > canvasWidth st \<or> y_s ?p < 0 \<or> y_s ?p > canvasHeight st"
  let ?other = "\<exists>q \<in> set (players_s st). id_s q \<noteq> id_s ?p \<and> alive_s q
            \<and> isPointNearTrail (x_s ?p) (y_s ?p) (trail_s q) 8"
  let ?self = "length (trail_s ?p) > 10
            \<and> isPointNearTrail (x_s ?p) (y_s ?p) (take (length (trail_s ?p) - 5) (trail_s ?p)) 8"
  have col: "collides st i \<longleftrightarrow> ?oob \<or> ?other \<or> ?self"
    by (simp add: collides_def Let_def)
  have others: "collideOthers i [0..<length (players_s st)] st
      = (if ?other then eliminatePlayer_s st i else st)"
    unfolding collideOthers_spec
    using ex_nth_iff [of "players_s st" "\<lambda>q. id_s q \<noteq> id_s ?p \<and> alive_s q
            \<and> isPointNearTrail (x_s ?p) (y_s ?p) (trail_s q) playerSize"]
    by (simp add: playerSize_def)
  have el: "trail_s (players_s (eliminatePlayer_s st i) ! i) = []"
    using i by (simp add: eliminatePlayer_s_def updPlayer_s_simps)
  show ?thesis
  proof (cases ?oob)
    case True
    then show ?thesis using al col by (auto simp: checkCollision_def)
  next
    case noob: False
    show ?thesis
    proof (cases ?other)
      case True
      have c1: "collideOthers i [0..<length (players_s st)] st = eliminatePlayer_s st i"
        unfolding others using True by (simp only: if_True)
      have "checkCollision i st = eliminatePlayer_s st i"
        using al noob by (simp add: checkCollision_def Let_def c1 el)
      then show ?thesis using True col by simp
    next
      case False
      have c1: "collideOthers i [0..<length (players_s st)] st = st"
        unfolding others using False by (simp only: if_False)
      have r: "checkCollision i st = (if ?self then eliminatePlayer_s st i else st)"
        using al noob by (simp add: checkCollision_def Let_def c1 playerSize_def)
      have "collides st i \<longleftrightarrow> ?self"
        using False noob col by blast
      then show ?thesis unfolding r by (simp only:)
    qed
  qed
qed

lemma checkCollision_dead:
  "\<not> alive_s (players_s st ! i) \<Longrightarrow> checkCollision i st = st"
  by (simp add: checkCollision_def)

lemma checkCollision_result:
  assumes "i < length (players_s st)"
  shows "checkCollision i st = st \<or> checkCollision i st = eliminatePlayer_s st i"
  using checkCollision_spec [OF assms] checkCollision_dead [of st i]
  by (cases "alive_s (players_s st ! i)") auto

lemma checkCollision_length:
  assumes "i < length (players_s st)"
  shows "length (players_s (checkCollision i st)) = length (players_s st)"
  using checkCollision_result [OF assms]
  by (auto simp: eliminatePlayer_s_def updPlayer_s_simps)

lemma checkCollision_other:
  assumes "i < length (players_s st)" "k \<noteq> i"
  shows "players_s (checkCollision i st) ! k = players_s st ! k"
    and "length (players_s (checkCollision i st)) = length (players_s st)"
  using checkCollision_result [OF assms(1)] assms(2)
  by (auto simp: eliminatePlayer_s_def updPlayer_s_simps)

lemma fold_checkCollision_other:
  assumes "\<forall>j \<in> set js. j < length (players_s st) \<and> j \<noteq> k"
  shows "players_s (fold checkCollision js st) ! k = players_s st ! k
         \<and> length (players_s (fold checkCollision js st)) = length (players_s st)"
  using assms
proof (induction js arbitrary: st)
  case Nil
  then show ?case by simp
next
  case (Cons j js)
  have j: "j < length (players_s st)" "k \<noteq> j" using Cons.prems by auto
  note c = checkCollision_other [OF j]
  have "\<forall>j' \<in> set js. j' < length (players_s (checkCollision j st)) \<and> j' \<noteq> k"
    using Cons.prems c(2) by simp
  from Cons.IH [OF this] show ?case using c by simp
qed

text \<open>
  What \<^verbatim>\<open>distanceToLineSegment\<close> computes is the distance to the nearest point of the
  segment: the clamped parameter is where the distance, a quadratic in the parameter, is
  least on the interval from 0 to 1. So \<^verbatim>\<open>isPointNearTrail\<close> holds exactly when some point
  of some segment of the trail is nearer than the threshold.
\<close>

lemma segment_quadratic:
  fixes a b dx dy q L s t :: real
  assumes L: "L = dx * dx + dy * dy" and q: "q * L = a * dx + b * dy"
  shows "((a - s * dx)\<^sup>2 + (b - s * dy)\<^sup>2) - ((a - t * dx)\<^sup>2 + (b - t * dy)\<^sup>2)
           = L * (s - t) * ((s - q) + (t - q))"
proof -
  have "((a - s * dx)\<^sup>2 + (b - s * dy)\<^sup>2) - ((a - t * dx)\<^sup>2 + (b - t * dy)\<^sup>2)
          = (s - t) * ((s + t) * (dx * dx + dy * dy) - 2 * (a * dx + b * dy))"
    by (simp add: power2_eq_square algebra_simps)
  also have "\<dots> = (s - t) * ((s + t) * L - 2 * (q * L))"
    by (simp only: L [symmetric] q [symmetric])
  also have "\<dots> = L * (s - t) * ((s - q) + (t - q))"
    by (simp add: algebra_simps)
  finally show ?thesis .
qed

lemma clamp_nearest:
  fixes q L s :: real
  assumes "0 \<le> L" "0 \<le> s" "s \<le> 1"
  shows "0 \<le> L * (s - max 0 (min 1 q)) * ((s - q) + (max 0 (min 1 q) - q))"
proof -
  consider "q \<le> 0" | "1 \<le> q" | "0 < q" "q < 1" by linarith
  then show ?thesis
  proof cases
    case 1
    then have t: "max 0 (min 1 q) = 0" by simp
    have "0 \<le> s * (s - q + (0 - q))" using 1 assms(2) by (intro mult_nonneg_nonneg) simp_all
    then have "0 \<le> L * (s * (s - q + (0 - q)))" using assms(1) by (rule mult_nonneg_nonneg [rotated])
    then show ?thesis unfolding t by (simp add: mult.assoc)
  next
    case 2
    then have t: "max 0 (min 1 q) = 1" by simp
    have "0 \<le> (s - 1) * (s - q + (1 - q))" using 2 assms(3) by (intro mult_nonpos_nonpos) simp_all
    then have "0 \<le> L * ((s - 1) * (s - q + (1 - q)))" using assms(1) by (rule mult_nonneg_nonneg [rotated])
    then show ?thesis unfolding t by (simp add: mult.assoc)
  next
    case 3
    then have t: "max 0 (min 1 q) = q" by simp
    have "0 \<le> (s - q) * (s - q)" by simp
    then have "0 \<le> L * ((s - q) * (s - q))" using assms(1) by (rule mult_nonneg_nonneg [rotated])
    then show ?thesis unfolding t by (simp add: mult.assoc)
  qed
qed

lemma distanceToLineSegment_nearest:
  "\<exists>t. 0 \<le> t \<and> t \<le> 1
       \<and> distanceToLineSegment x y p1 p2 = Some (pointDist x y (segmentPoint p1 p2 t))
       \<and> (\<forall>s. 0 \<le> s \<and> s \<le> 1 \<longrightarrow>
              pointDist x y (segmentPoint p1 p2 t) \<le> pointDist x y (segmentPoint p1 p2 s))"
proof -
  define dx dy a b L where "dx = fst p2 - fst p1" and "dy = snd p2 - snd p1"
    and "a = x - fst p1" and "b = y - snd p1" and "L = dx * dx + dy * dy"
  have L0: "0 \<le> L" by (simp add: L_def)
  have pd: "pointDist x y (segmentPoint p1 p2 s) = sqrt ((a - s * dx)\<^sup>2 + (b - s * dy)\<^sup>2)" for s
    by (simp add: pointDist_def segmentPoint_def a_def b_def dx_def dy_def algebra_simps)
  show ?thesis
  proof (cases "L = 0")
    case True
    then have z: "dx = 0" "dy = 0"
      unfolding L_def by (simp_all add: sum_squares_eq_zero_iff [unfolded power2_eq_square] add_nonneg_eq_0_iff)
    have d: "distanceToLineSegment x y p1 p2 = Some (sqrt (a\<^sup>2 + b\<^sup>2))"
      using z by (simp add: distanceToLineSegment_def Let_def dx_def dy_def a_def b_def)
    have "pointDist x y (segmentPoint p1 p2 s) = sqrt (a\<^sup>2 + b\<^sup>2)" for s
      by (simp add: pd z)
    then show ?thesis
      using d by (intro exI [of _ 0]) simp
  next
    case False
    then have Lpos: "0 < L" using L0 by simp
    define q where "q = (a * dx + b * dy) / L"
    define t where "t = max 0 (min 1 q)"
    have qL: "q * L = a * dx + b * dy"
      using False by (simp add: q_def)
    have t01: "0 \<le> t" "t \<le> 1" by (simp_all add: t_def)
    have len: "sqrt L \<noteq> 0" "sqrt L * sqrt L = L"
      using Lpos by simp_all
    have d: "distanceToLineSegment x y p1 p2 = Some (sqrt ((a - t * dx)\<^sup>2 + (b - t * dy)\<^sup>2))"
      unfolding distanceToLineSegment_def Let_def jsDiv_def
      using len
      apply (simp add: dx_def [symmetric] dy_def [symmetric] L_def [symmetric]
          a_def [symmetric] b_def [symmetric] q_def [symmetric] t_def [symmetric])
      apply (simp add: a_def b_def algebra_simps)
      done
    have least: "pointDist x y (segmentPoint p1 p2 t) \<le> pointDist x y (segmentPoint p1 p2 s)"
      if "0 \<le> s \<and> s \<le> 1" for s
    proof -
      have "((a - s * dx)\<^sup>2 + (b - s * dy)\<^sup>2) - ((a - t * dx)\<^sup>2 + (b - t * dy)\<^sup>2)
              = L * (s - t) * ((s - q) + (t - q))"
        using L_def qL by (rule segment_quadratic)
      moreover have "0 \<le> L * (s - t) * ((s - q) + (t - q))"
        unfolding t_def using L0 that by (intro clamp_nearest) simp_all
      ultimately have "(a - t * dx)\<^sup>2 + (b - t * dy)\<^sup>2 \<le> (a - s * dx)\<^sup>2 + (b - s * dy)\<^sup>2"
        by linarith
      then show ?thesis unfolding pd by (rule real_sqrt_le_mono)
    qed
    show ?thesis
      using t01 d least by (intro exI [of _ t]) (simp add: pd)
  qed
qed

lemma isPointNearTrail_iff: "isPointNearTrail x y tr d \<longleftrightarrow> nearTrail x y tr d"
proof
  assume "isPointNearTrail x y tr d"
  then obtain i where i: "i < length tr - 1"
    and c: "case distanceToLineSegment x y (tr ! i) (tr ! (i + 1)) of
              None \<Rightarrow> False | Some distance \<Rightarrow> distance < d"
    by (auto simp: isPointNearTrail_def list_ex_iff)
  obtain t where t: "0 \<le> t" "t \<le> 1"
    and e: "distanceToLineSegment x y (tr ! i) (tr ! Suc i)
              = Some (pointDist x y (segmentPoint (tr ! i) (tr ! Suc i) t))"
    using distanceToLineSegment_nearest [of x y "tr ! i" "tr ! Suc i"] by blast
  have "pointDist x y (segmentPoint (tr ! i) (tr ! Suc i) t) < d"
    using c e by simp
  moreover have "Suc i < length tr" using i by arith
  ultimately show "nearTrail x y tr d"
    unfolding nearTrail_def using t by blast
next
  assume "nearTrail x y tr d"
  then obtain i s where i: "Suc i < length tr" and s: "0 \<le> s \<and> s \<le> 1"
    and n: "pointDist x y (segmentPoint (tr ! i) (tr ! Suc i) s) < d"
    unfolding nearTrail_def by blast
  obtain t where
    e: "distanceToLineSegment x y (tr ! i) (tr ! Suc i)
              = Some (pointDist x y (segmentPoint (tr ! i) (tr ! Suc i) t))"
    and least: "\<forall>s. 0 \<le> s \<and> s \<le> 1 \<longrightarrow>
              pointDist x y (segmentPoint (tr ! i) (tr ! Suc i) t)
                \<le> pointDist x y (segmentPoint (tr ! i) (tr ! Suc i) s)"
    using distanceToLineSegment_nearest [of x y "tr ! i" "tr ! Suc i"] by blast
  have "pointDist x y (segmentPoint (tr ! i) (tr ! Suc i) t) < d"
    using least s n by (meson le_less_trans)
  moreover have "i \<in> set [0..<length tr - 1]" using i by simp
  ultimately show "isPointNearTrail x y tr d"
    unfolding isPointNearTrail_def list_ex_iff using e by (intro bexI [of _ i]) simp_all
qed

lemma nearTrail_mono: "nearTrail x y tr d \<Longrightarrow> d \<le> d' \<Longrightarrow> nearTrail x y tr d'"
  unfolding nearTrail_def by (meson less_le_trans)

lemma collides_iff: "collides st i \<longleftrightarrow> collidesWithin st i 8"
  by (simp add: collides_def collidesWithin_def isPointNearTrail_iff)

lemma collidesWithin_mono: "collidesWithin st i d \<Longrightarrow> d \<le> d' \<Longrightarrow> collidesWithin st i d'"
  unfolding collidesWithin_def Let_def using nearTrail_mono by blast

lemma stateAt_Suc: "stateAt g (Suc k) = checkCollision k (stateAt g k)"
  by (simp add: stateAt_def)

lemma checkCollisions_at_turn:
  assumes "k < length (players_s g)"
  shows "players_s (checkCollisions g) ! k = players_s (checkCollision k (stateAt g k)) ! k"
    and "players_s (stateAt g k) ! k = players_s g ! k"
    and "length (players_s (stateAt g k)) = length (players_s g)"
proof -
  let ?n = "length (players_s g)"
  let ?st = "stateAt g k"
  let ?st' = "checkCollision k ?st"
  have before: "players_s ?st ! k = players_s g ! k \<and> length (players_s ?st) = ?n"
    unfolding stateAt_def using assms by (intro fold_checkCollision_other) simp
  then show "players_s ?st ! k = players_s g ! k" and "length (players_s ?st) = ?n"
    by simp_all
  have kst: "k < length (players_s ?st)" using assms before by simp
  have len': "length (players_s ?st') = ?n"
    using checkCollision_length [OF kst] before by simp
  have split: "[0..<?n] = [0..<k] @ k # [Suc k..<?n]"
  proof -
    have "[0..<?n] = [0..<k] @ [k..<?n]"
      using assms upt_add_eq_append [of 0 k "?n - k"] by simp
    moreover have "[k..<?n] = k # [Suc k..<?n]"
      using assms by (rule upt_conv_Cons)
    ultimately show ?thesis by simp
  qed
  have "checkCollisions g = fold checkCollision [Suc k..<?n] ?st'"
    unfolding checkCollisions_def stateAt_def by (subst split) simp
  moreover have "players_s (fold checkCollision [Suc k..<?n] ?st') ! k = players_s ?st' ! k"
    using len' by (intro fold_checkCollision_other [THEN conjunct1]) simp
  ultimately show "players_s (checkCollisions g) ! k = players_s ?st' ! k"
    by simp
qed

lemma pointDist_ge: "\<bar>x - fst q\<bar> \<le> pointDist x y q"
proof -
  have "sqrt ((x - fst q)\<^sup>2) \<le> sqrt ((x - fst q)\<^sup>2 + (y - snd q)\<^sup>2)"
    by (rule real_sqrt_le_mono) simp
  then show ?thesis by (simp add: pointDist_def)
qed

lemma exNear_facts:
  "collidesWithin exNear 1 (8 - roundingMargin)"
  "\<not> collidesWithin exNear 0 (8 + roundingMargin)"
proof -
  have p0: "players_s exNear ! 0 = exA"
    and p1: "players_s exNear ! 1 = exB"
    and ps: "set (players_s exNear) = {exA, exB}"
    and cw: "canvasWidth exNear = 800" "canvasHeight exNear = 600"
    by (simp_all add: exNear_def exGame_s_def)
  have "pointDist 795 100 (segmentPoint (800, 100) (790, 100) (1 / 2)) = 0"
    by (simp add: pointDist_def segmentPoint_def)
  then have "nearTrail 795 100 [(800, 100), (790, 100)] (8 - roundingMargin)"
    unfolding nearTrail_def
    by (intro exI [of _ 0] exI [of _ "1 / 2"]) (simp add: roundingMargin_def)
  then show "collidesWithin exNear 1 (8 - roundingMargin)"
    unfolding collidesWithin_def Let_def One_nat_def [symmetric] p1 ps
    by (simp add: exA_def exB_def exS1_def exS2_def)
  have far: "\<not> nearTrail 780 100 [(795, 128), (795, 114)] (8 + roundingMargin)"
  proof
    assume "nearTrail 780 100 [(795, 128), (795, 114)] (8 + roundingMargin)"
    then obtain i t where i: "Suc i < length [(795, 128), (795, 114 :: real) :: point]"
      and n: "pointDist 780 100 (segmentPoint ([(795, 128), (795, 114)] ! i)
                ([(795, 128), (795, 114)] ! Suc i) t) < 8 + roundingMargin"
      unfolding nearTrail_def by blast
    have "i = 0" using i by auto
    then have "fst (segmentPoint ([(795, 128), (795, 114)] ! i)
                ([(795, 128), (795, 114)] ! Suc i) t) = 795"
      by (simp add: segmentPoint_def)
    then have "15 \<le> \<bar>780 - fst (segmentPoint ([(795, 128), (795, 114)] ! i)
                ([(795, 128), (795, 114)] ! Suc i) t)\<bar>"
      by simp
    also have "\<dots> \<le> pointDist 780 100 (segmentPoint ([(795, 128), (795, 114)] ! i)
                ([(795, 128), (795, 114)] ! Suc i) t)"
      by (rule pointDist_ge)
    finally show False
      using n by (simp add: roundingMargin_def)
  qed
  show "\<not> collidesWithin exNear 0 (8 + roundingMargin)"
    unfolding collidesWithin_def Let_def p0 ps cw using far
    by (simp add: exA_def exB_def exS1_def exS2_def)
qed

lemma fold_checkCollision_canvas:
  assumes "\<forall>j \<in> set js. j < length (players_s st)"
  shows "canvasWidth (fold checkCollision js st) = canvasWidth st
         \<and> canvasHeight (fold checkCollision js st) = canvasHeight st
         \<and> length (players_s (fold checkCollision js st)) = length (players_s st)"
  using assms
proof (induction js arbitrary: st)
  case Nil
  then show ?case by simp
next
  case (Cons j js)
  have j: "j < length (players_s st)" using Cons.prems by simp
  have c: "canvasWidth (checkCollision j st) = canvasWidth st
         \<and> canvasHeight (checkCollision j st) = canvasHeight st
         \<and> length (players_s (checkCollision j st)) = length (players_s st)"
    using checkCollision_result [OF j]
    by (auto simp: eliminatePlayer_s_def updPlayer_s_simps)
  then have "\<forall>j' \<in> set js. j' < length (players_s (checkCollision j st))"
    using Cons.prems by simp
  from Cons.IH [OF this] show ?case using c by simp
qed

lemma stateAt_players:
  assumes k: "k \<le> length (players_s g)"
  shows "length (players_s (stateAt g k)) = length (players_s g)"
    and "canvasWidth (stateAt g k) = canvasWidth g"
    and "canvasHeight (stateAt g k) = canvasHeight g"
    and "j < k \<Longrightarrow> players_s (stateAt g k) ! j = players_s (checkCollisions g) ! j"
    and "k \<le> j \<Longrightarrow> players_s (stateAt g k) ! j = players_s g ! j"
proof -
  let ?n = "length (players_s g)"
  have c: "canvasWidth (stateAt g k) = canvasWidth g
         \<and> canvasHeight (stateAt g k) = canvasHeight g
         \<and> length (players_s (stateAt g k)) = ?n"
    unfolding stateAt_def using k by (intro fold_checkCollision_canvas) simp
  then show len: "length (players_s (stateAt g k)) = ?n"
    and "canvasWidth (stateAt g k) = canvasWidth g"
    and "canvasHeight (stateAt g k) = canvasHeight g"
    by simp_all
  have split: "[0..<?n] = [0..<k] @ [k..<?n]"
    using k upt_add_eq_append [of 0 k "?n - k"] by simp
  have rest: "checkCollisions g = fold checkCollision [k..<?n] (stateAt g k)"
    unfolding checkCollisions_def stateAt_def by (subst split) simp
  show "players_s (stateAt g k) ! j = players_s (checkCollisions g) ! j" if "j < k"
    unfolding rest using that len
    by (intro fold_checkCollision_other [THEN conjunct1, symmetric]) simp
  show "players_s (stateAt g k) ! j = players_s g ! j" if "k \<le> j"
    unfolding stateAt_def using that k
    by (intro fold_checkCollision_other [THEN conjunct1]) simp
qed

lemma collidesWithin_cong:
  assumes "players_s a = players_s b" "canvasWidth a = canvasWidth b" "canvasHeight a = canvasHeight b"
  shows "collidesWithin a k d = collidesWithin b k d"
  using assms by (simp add: collidesWithin_def)

text \<open>
  C4. \<^verbatim>\<open>checkCollisions\<close> examines the players in the order of the array. \<open>stateAt g k\<close> is
  the state in which the player at index \<open>k\<close> is examined: the players before it are as
  the call leaves them (a player eliminated earlier in the call is dead there and its
  trail is empty), the others as the call found them. A player that is alive when the
  call begins ends it eliminated if, in the state in which it is examined, its position
  is outside the canvas, or nearer than 8 less the margin to the trail of a living player
  with another id, or, its own trail having more than 10 points, nearer than 8 less the
  margin to that trail without its last 5 points; it ends the call unchanged if none of
  these holds with 8 plus the margin in the place of 8 less the margin; and nothing else
  can happen to it. Eliminated, it is dead, its trail is empty and its direction is
  (0,0). A player that is dead when the call begins is unchanged.
\<close>

theorem checkCollisions_eliminates:
  "(k < length (players_s g) \<and> alive_s (players_s g ! k) \<longrightarrow>
      (collidesWithin (stateAt g k) k (8 - roundingMargin) \<longrightarrow>
         players_s (checkCollisions g) ! k
           = (players_s g ! k)\<lparr>alive_s := False, trail_s := [], direction_s := (0, 0)\<rparr>)
      \<and> (\<not> collidesWithin (stateAt g k) k (8 + roundingMargin) \<longrightarrow>
           players_s (checkCollisions g) ! k = players_s g ! k)
      \<and> (players_s (checkCollisions g) ! k
           = (players_s g ! k)\<lparr>alive_s := False, trail_s := [], direction_s := (0, 0)\<rparr>
         \<or> players_s (checkCollisions g) ! k = players_s g ! k))
   \<and> (k < length (players_s g) \<and> \<not> alive_s (players_s g ! k) \<longrightarrow>
        players_s (checkCollisions g) ! k = players_s g ! k)
   \<and> (k \<le> length (players_s g) \<longrightarrow>
        length (players_s (stateAt g k)) = length (players_s g)
        \<and> canvasWidth (stateAt g k) = canvasWidth g \<and> canvasHeight (stateAt g k) = canvasHeight g
        \<and> (\<forall>j. j < k \<longrightarrow> players_s (stateAt g k) ! j = players_s (checkCollisions g) ! j)
        \<and> (\<forall>j. k \<le> j \<longrightarrow> players_s (stateAt g k) ! j = players_s g ! j))
   \<and> stateAt g 0 = g
   \<and> length (players_s (checkCollisions g)) = length (players_s g)"
proof -
  let ?st = "stateAt g k"
  let ?e = "(players_s g ! k)\<lparr>alive_s := False, trail_s := [], direction_s := (0, 0)\<rparr>"
  have 1: "(collidesWithin ?st k (8 - roundingMargin) \<longrightarrow>
         players_s (checkCollisions g) ! k = ?e)
      \<and> (\<not> collidesWithin ?st k (8 + roundingMargin) \<longrightarrow>
           players_s (checkCollisions g) ! k = players_s g ! k)
      \<and> (players_s (checkCollisions g) ! k = ?e \<or> players_s (checkCollisions g) ! k = players_s g ! k)"
    if k: "k < length (players_s g)" and al: "alive_s (players_s g ! k)"
  proof -
    note t = checkCollisions_at_turn [OF k]
    have kst: "k < length (players_s ?st)" using k t(3) by simp
    have alst: "alive_s (players_s ?st ! k)" using al t(2) by simp
    have ex: "checkCollision k ?st = (if collidesWithin ?st k 8 then eliminatePlayer_s ?st k else ?st)"
      using checkCollision_spec [OF kst alst] by (simp only: collides_iff)
    have el: "players_s (eliminatePlayer_s ?st k) ! k = ?e"
      using kst t(2) by (simp add: eliminatePlayer_s_def updPlayer_s_simps)
    have res: "players_s (checkCollisions g) ! k = (if collidesWithin ?st k 8 then ?e else players_s g ! k)"
      unfolding t(1) ex using el t(2) by simp
    have m: "8 - roundingMargin \<le> 8" "8 \<le> 8 + roundingMargin"
      by (simp_all add: playerSize_def roundingMargin_def)
    have a: "players_s (checkCollisions g) ! k = ?e"
      if "collidesWithin ?st k (8 - roundingMargin)"
      using collidesWithin_mono [OF that m(1)] res by simp
    have b: "players_s (checkCollisions g) ! k = players_s g ! k"
      if "\<not> collidesWithin ?st k (8 + roundingMargin)"
    proof -
      have "\<not> collidesWithin ?st k 8"
        using that collidesWithin_mono [OF _ m(2)] by blast
      then show ?thesis using res by simp
    qed
    show ?thesis using a b res by metis
  qed
  have 2: "players_s (checkCollisions g) ! k = players_s g ! k"
    if k: "k < length (players_s g)" and al: "\<not> alive_s (players_s g ! k)"
  proof -
    note t = checkCollisions_at_turn [OF k]
    have "\<not> alive_s (players_s ?st ! k)" using al t(2) by simp
    then have "checkCollision k ?st = ?st" by (rule checkCollision_dead)
    then show ?thesis using t(1,2) by simp
  qed
  have 3: "length (players_s ?st) = length (players_s g)
        \<and> canvasWidth ?st = canvasWidth g \<and> canvasHeight ?st = canvasHeight g
        \<and> (\<forall>j. j < k \<longrightarrow> players_s ?st ! j = players_s (checkCollisions g) ! j)
        \<and> (\<forall>j. k \<le> j \<longrightarrow> players_s ?st ! j = players_s g ! j)"
    if "k \<le> length (players_s g)"
    using stateAt_players [OF that] by simp
  have 4: "stateAt g 0 = g" by (simp add: stateAt_def)
  have 5: "length (players_s (checkCollisions g)) = length (players_s g)"
    unfolding checkCollisions_def
    by (intro fold_checkCollision_canvas [THEN conjunct2, THEN conjunct2]) simp
  show ?thesis
    using 1 2 3 4 5 by (intro conjI impI) blast+
qed

theorem checkCollisions_eliminates_witness:
  "1 < length (players_s exNear) \<and> alive_s (players_s exNear ! 1) \<and> alive_s (players_s exNear ! 0)
   \<and> \<not> collidesWithin (stateAt exNear 0) 0 (8 + roundingMargin)
   \<and> players_s (checkCollisions exNear) ! 0 = exA
   \<and> collidesWithin (stateAt exNear 1) 1 (8 - roundingMargin)
   \<and> players_s (checkCollisions exNear) ! 1
       = exB\<lparr>alive_s := False, trail_s := [], direction_s := (0, 0)\<rparr>"
proof -
  have len: "1 < length (players_s exNear)" "0 < length (players_s exNear)"
    "1 \<le> length (players_s exNear)" "length (players_s exNear) = 2"
    and p0: "players_s exNear ! 0 = exA"
    and p1: "players_s exNear ! 1 = exB"
    and al: "alive_s (players_s exNear ! 1)" "alive_s (players_s exNear ! 0)"
    by (simp_all add: exNear_def exGame_s_def exA_def exB_def exS1_def exS2_def)
  note at0 = checkCollisions_eliminates [where g = exNear and k = 0]
  note at1 = checkCollisions_eliminates [where g = exNear and k = 1]
  have s0: "stateAt exNear 0 = exNear" using at0 by blast
  have n0: "\<not> collidesWithin (stateAt exNear 0) 0 (8 + roundingMargin)"
    unfolding s0 by (rule exNear_facts(2))
  have r0: "players_s (checkCollisions exNear) ! 0 = players_s exNear ! 0"
    using at0 len(2) al(2) n0 by blast
  have s1: "length (players_s (stateAt exNear 1)) = length (players_s exNear)"
    "canvasWidth (stateAt exNear 1) = canvasWidth exNear"
    "canvasHeight (stateAt exNear 1) = canvasHeight exNear"
    "\<forall>j. j < 1 \<longrightarrow> players_s (stateAt exNear 1) ! j = players_s (checkCollisions exNear) ! j"
    "\<forall>j. 1 \<le> j \<longrightarrow> players_s (stateAt exNear 1) ! j = players_s exNear ! j"
    using at1 len(3) by blast+
  have "players_s (stateAt exNear 1) ! j = players_s exNear ! j" for j
  proof (cases "j < 1")
    case True
    then have "j = 0" by simp
    then show ?thesis using s1(4) r0 by simp
  next
    case False
    then show ?thesis using s1(5) by simp
  qed
  then have "players_s (stateAt exNear 1) = players_s exNear"
    using s1(1) by (simp add: list_eq_iff_nth_eq)
  then have c1: "collidesWithin (stateAt exNear 1) 1 (8 - roundingMargin)"
    using collidesWithin_cong [OF _ s1(2,3), of 1 "8 - roundingMargin"] exNear_facts(1)
    by simp
  have r1: "players_s (checkCollisions exNear) ! 1
       = (players_s exNear ! 1)\<lparr>alive_s := False, trail_s := [], direction_s := (0, 0)\<rparr>"
    using at1 len(1) al(1) c1 by blast
  show ?thesis
    using len(1) al n0 r0 [unfolded p0] c1 r1 [unfolded p1] by (intro conjI)
qed


text \<open>
  The order matters. In \<open>exOrder\<close> both players are alive when \<^verbatim>\<open>checkCollisions\<close> is called
  and the second stands on the trail of the first, at distance 0. The first player is
  outside the canvas and is examined first: it is eliminated and its trail emptied, and
  the second player ends the call as it was, alive.
\<close>

theorem checkCollisions_order_counterexample:
  "alive_s (players_s exOrder ! 0) \<and> alive_s (players_s exOrder ! 1)
   \<and> id_s (players_s exOrder ! 0) \<noteq> id_s (players_s exOrder ! 1)
   \<and> trail_s (players_s exOrder ! 0) = [(790, 100), (800, 100)]
   \<and> (x_s (players_s exOrder ! 1), y_s (players_s exOrder ! 1)) = (795, 100)
   \<and> pointDist 795 100 (segmentPoint (790, 100) (800, 100) (1 / 2)) = 0
   \<and> isPointNearTrail 795 100 [(790, 100), (800, 100)] playerSize
   \<and> players_s (checkCollisions exOrder) ! 1 = players_s exOrder ! 1"
proof -
  have d0: "pointDist 795 100 (segmentPoint (790, 100) (800, 100) (1 / 2)) = 0"
    by (simp add: pointDist_def segmentPoint_def)
  then have "nearTrail 795 100 [(790, 100), (800, 100)] playerSize"
    unfolding nearTrail_def
    by (intro exI [of _ 0] exI [of _ "1 / 2"]) (simp add: playerSize_def)
  then have near: "isPointNearTrail 795 100 [(790, 100), (800, 100)] playerSize"
    by (simp only: isPointNearTrail_iff)
  have upt2: "[0..<2] = [0, 1]" by (simp add: upt_rec)
  have c0: "checkCollision 0 exOrder = eliminatePlayer_s exOrder 0"
    by (simp add: checkCollision_def exOrder_def exGame_s_def exS1_def)
  have c1: "checkCollision 1 (eliminatePlayer_s exOrder 0) = eliminatePlayer_s exOrder 0"
    by (simp add: checkCollision_def Let_def eliminatePlayer_s_def updPlayer_s_def
        exOrder_def exGame_s_def exS1_def exS2_def exB_def upt2)
  have l: "length (players_s exOrder) = 2"
    by (simp add: exOrder_def exGame_s_def)
  have "checkCollisions exOrder = eliminatePlayer_s exOrder 0"
    by (simp only: checkCollisions_def l upt2 fold_Cons fold_Nil comp_apply id_apply c0 c1)
  then have last: "players_s (checkCollisions exOrder) ! 1 = players_s exOrder ! 1"
    by (simp add: eliminatePlayer_s_def updPlayer_s_def)
  show ?thesis
    using d0 near last
    by (simp add: exOrder_def exGame_s_def exS1_def exS2_def exB_def)
qed


subsection \<open>One frame of the continuous engine\<close>

lemma grows_s_refl: "grows_s st st"
  by (simp add: grows_s_def)

lemma grows_s_trans:
  assumes "grows_s a b" "grows_s b c"
  shows "grows_s a c"
proof -
  have len: "length (players_s b) = length (players_s a)"
    using assms(1) by (simp add: grows_s_def)
  have "id_s (players_s c ! j) = id_s (players_s a ! j)
        \<and> (\<exists>new. territory_s (players_s c ! j) = territory_s (players_s a ! j) @ new)"
    if jl: "j < length (players_s a)" for j
  proof -
    have A: "\<forall>j < length (players_s a).
           id_s (players_s b ! j) = id_s (players_s a ! j)
           \<and> (\<exists>new. territory_s (players_s b ! j) = territory_s (players_s a ! j) @ new)"
      using assms(1) by (simp add: grows_s_def)
    have B: "\<forall>j < length (players_s a).
           id_s (players_s c ! j) = id_s (players_s b ! j)
           \<and> (\<exists>new. territory_s (players_s c ! j) = territory_s (players_s b ! j) @ new)"
      using assms(2) len by (simp add: grows_s_def)
    obtain n1 where 1: "id_s (players_s b ! j) = id_s (players_s a ! j)"
        "territory_s (players_s b ! j) = territory_s (players_s a ! j) @ n1"
      using A [THEN spec, of j] jl by auto
    obtain n2 where 2: "id_s (players_s c ! j) = id_s (players_s b ! j)"
        "territory_s (players_s c ! j) = territory_s (players_s b ! j) @ n2"
      using B [THEN spec, of j] jl by auto
    have "territory_s (players_s c ! j) = territory_s (players_s a ! j) @ (n1 @ n2)"
      using 1(2) 2(2) by simp
    then show ?thesis using 1(1) 2(1) by simp
  qed
  then show ?thesis
    using assms by (simp add: grows_s_def)
qed

lemma grows_s_updPlayer:
  assumes "\<And>p. id_s (f p) = id_s p" "\<And>p. \<exists>new. territory_s (f p) = territory_s p @ new"
  shows "grows_s st (updPlayer_s st i f)"
proof -
  have "id_s (players_s (updPlayer_s st i f) ! j) = id_s (players_s st ! j)
        \<and> (\<exists>new. territory_s (players_s (updPlayer_s st i f) ! j) = territory_s (players_s st ! j) @ new)"
    if "j < length (players_s st)" for j
  proof (cases "j = i")
    case True
    then show ?thesis using that assms by (simp add: updPlayer_s_simps)
  next
    case False
    then show ?thesis by (simp add: updPlayer_s_simps)
  qed
  then show ?thesis
    by (simp add: grows_s_def updPlayer_s_simps)
qed

lemma updPlayer_s_twice:
  "updPlayer_s (updPlayer_s st i f) i g = updPlayer_s st i (\<lambda>p. g (f p))"
  by (cases "i < length (players_s st)") (simp_all add: updPlayer_s_def list_update_beyond)

lemma closeTrail_grows: "grows_s st (closeTrail st i)"
proof (cases "length (trail_s (players_s st ! i)) < 3")
  case True
  then have "closeTrail st i = updPlayer_s st i (\<lambda>p. p\<lparr>trail_s := []\<rparr>)"
    by (simp add: closeTrail_def)
  then show ?thesis by (simp add: grows_s_updPlayer)
next
  case False
  then have "closeTrail st i = updPlayer_s st i (\<lambda>p. p\<lparr>trail_s := trail_s p @ [(x_s p, y_s p)],
      territory_s := territory_s p @ [trail_s p @ [(x_s p, y_s p)]], trail_s := []\<rparr>)"
    by (simp add: closeTrail_def Let_def findTerritoryConnection_def updPlayer_s_twice)
  then show ?thesis by (simp add: grows_s_updPlayer)
qed

lemma updatePlayer_s_grows: "grows_s st (updatePlayer_s dt i st)"
proof -
  let ?p = "players_s st ! i"
  let ?st1 = "updPlayer_s st i (\<lambda>p. p\<lparr>x_s := x_s p + real_of_int (fst (direction_s p)) * speed p * dt,
                                           y_s := y_s p + real_of_int (snd (direction_s p)) * speed p * dt\<rparr>)"
  let ?p1 = "players_s ?st1 ! i"
  have g1: "grows_s st ?st1" by (rule grows_s_updPlayer) simp_all
  show ?thesis
  proof (cases "\<not> alive_s ?p \<or> (fst (direction_s ?p) = 0 \<and> snd (direction_s ?p) = 0)")
    case True
    then have "updatePlayer_s dt i st = st"
      by (simp add: updatePlayer_s_def)
    then show ?thesis by (simp add: grows_s_refl)
  next
    case False
    then have unf: "updatePlayer_s dt i st =
       (if \<not> isInTerritory ?p1 (x_s ?p1) (y_s ?p1)
        then
          if sqrt ((x_s ?p1 - x_s ?p)\<^sup>2 + (y_s ?p1 - y_s ?p)\<^sup>2) > 2
          then updPlayer_s ?st1 i (\<lambda>p. p\<lparr>trail_s := trail_s p @ [(x_s ?p, y_s ?p)]\<rparr>)
          else ?st1
        else if length (trail_s ?p1) > 0 then closeTrail ?st1 i
        else ?st1)"
      by (auto simp add: updatePlayer_s_def Let_def)
    have g2: "grows_s ?st1 (updPlayer_s ?st1 i (\<lambda>p. p\<lparr>trail_s := trail_s p @ [(x_s ?p, y_s ?p)]\<rparr>))"
      by (rule grows_s_updPlayer) simp_all
    have g3: "grows_s ?st1 (closeTrail ?st1 i)" by (rule closeTrail_grows)
    have "grows_s ?st1 (updatePlayer_s dt i st)"
      unfolding unf using g2 g3 grows_s_refl [of ?st1] by (simp only: split: if_split) simp
    with g1 show ?thesis by (rule grows_s_trans)
  qed
qed

lemma fold_grows_s:
  assumes "\<And>i s. grows_s s (f i s)"
  shows "grows_s st (fold f js st)"
proof (induction js arbitrary: st)
  case Nil
  then show ?case by (simp add: grows_s_refl)
next
  case (Cons j js)
  have "grows_s st (f j st)" by (rule assms)
  moreover have "grows_s (f j st) (fold f js (f j st))" by (rule Cons.IH)
  ultimately show ?case using grows_s_trans by simp
qed

lemma updatePlayers_s_grows: "grows_s st (updatePlayers_s st dt)"
  unfolding updatePlayers_s_def by (rule fold_grows_s) (rule updatePlayer_s_grows)

lemma checkCollision_grows: "grows_s st (checkCollision i st)"
proof (cases "i < length (players_s st)")
  case True
  have "grows_s st (eliminatePlayer_s st i)"
    unfolding eliminatePlayer_s_def by (rule grows_s_updPlayer) simp_all
  then show ?thesis
    using checkCollision_result [OF True] grows_s_refl [of st] by auto
next
  case False
  have e: "eliminatePlayer_s s i = s" if "\<not> i < length (players_s s)" for s
    using that by (simp add: eliminatePlayer_s_def updPlayer_s_def list_update_beyond)
  have c: "collideOthers i js st = st" for js
    unfolding collideOthers_spec using e [OF False] by simp
  have "checkCollision i st = st"
    using False by (simp add: checkCollision_def Let_def c e)
  then show ?thesis by (simp add: grows_s_refl)
qed

lemma checkCollisions_grows: "grows_s st (checkCollisions st)"
  unfolding checkCollisions_def by (rule fold_grows_s) (rule checkCollision_grows)

lemma ebind_Inr: "ebind (Inr a) f = f a"
  and ebind_Inl: "ebind (Inl e) f = Inl e"
  by (simp_all add: ebind_def)

lemma updateAIDirection_total:
  assumes "rngOk r"
  shows "\<exists>st' r'. updateAIDirection st i r = Inr (st', r') \<and> grows_s st st' \<and> rngOk r'"
proof -
  let ?player = "players_s st ! i"
  let ?safe = "filter (\<lambda>dir.
             if fst dir = - fst (direction_s ?player) \<and> snd dir = - snd (direction_s ?player) then False
             else
               let testX = x_s ?player + real_of_int (fst dir) * 50;
                   testY = y_s ?player + real_of_int (snd dir) * 50 in
               isPositionSafe st ?player testX testY) directions"
  have gd: "grows_s st (updPlayer_s st i (\<lambda>p. p\<lparr>direction_s := d\<rparr>))" for d
    by (rule grows_s_updPlayer) simp_all
  note r1 = rngOk_next [OF assms] and v = rngOk_value [OF assms]
  show ?thesis
  proof (cases "length ?safe > 0")
    case True
    then have ne: "?safe \<noteq> []" by simp
    show ?thesis
    proof (cases "findBestAIDirection st ?player ?safe")
      case None
      obtain d where "randomElement ?safe (fst (randomNext r)) = Inr d"
        using randomElement_ok [OF ne] v by blast
      then have "updateAIDirection st i r
          = Inr (updPlayer_s st i (\<lambda>p. p\<lparr>direction_s := d\<rparr>), snd (randomNext r))"
        using True None by (simp add: updateAIDirection_def Let_def ebind_def)
      then show ?thesis using gd r1 by blast
    next
      case (Some b)
      then have "updateAIDirection st i r = Inr (updPlayer_s st i (\<lambda>p. p\<lparr>direction_s := b\<rparr>), r)"
        using True by (simp add: updateAIDirection_def Let_def)
      then show ?thesis using gd assms by blast
    qed
  next
    case False
    show ?thesis
    proof (cases "length (trail_s ?player) = 0")
      case True
      have "directions \<noteq> []" by (simp add: directions_def)
      then obtain d where "randomElement directions (fst (randomNext r)) = Inr d"
        using randomElement_ok v by blast
      then have "updateAIDirection st i r
          = Inr (updPlayer_s st i (\<lambda>p. p\<lparr>direction_s := d\<rparr>), snd (randomNext r))"
        using False True by (simp add: updateAIDirection_def Let_def ebind_def)
      then show ?thesis using gd r1 by blast
    next
      case nt: False
      have "updateAIDirection st i r = Inr (st, r)"
        using False nt by (simp add: updateAIDirection_def Let_def)
      then show ?thesis using grows_s_refl assms by blast
    qed
  qed
qed

lemma updateAIDirection_stamped:
  assumes "rngOk r"
  shows "\<exists>st' r'. ebind (updateAIDirection st i r) (\<lambda>sr1.
                      Inr (updPlayer_s (fst sr1) i (\<lambda>p. p\<lparr>lastDirectionChange := t\<rparr>), snd sr1))
                 = Inr (st', r') \<and> grows_s st st' \<and> rngOk r'"
proof -
  obtain st1 r1 where u: "updateAIDirection st i r = Inr (st1, r1)" "grows_s st st1" "rngOk r1"
    using updateAIDirection_total [OF assms] by blast
  have "grows_s st1 (updPlayer_s st1 i (\<lambda>p. p\<lparr>lastDirectionChange := t\<rparr>))"
    by (rule grows_s_updPlayer) simp_all
  then have "grows_s st (updPlayer_s st1 i (\<lambda>p. p\<lparr>lastDirectionChange := t\<rparr>))"
    using u(2) grows_s_trans by blast
  then show ?thesis using u(1,3) by (simp add: ebind_def)
qed

lemma updateAIPlayer_s_total:
  assumes "rngOk r"
  shows "\<exists>st' r'. updateAIPlayer_s t i (st, r) = Inr (st', r') \<and> grows_s st st' \<and> rngOk r'"
proof (cases "\<not> alive_s (players_s st ! i) \<or> isHuman_s (players_s st ! i)")
  case True
  then have "updateAIPlayer_s t i (st, r) = Inr (st, r)"
    by (simp add: updateAIPlayer_s_def)
  then show ?thesis using grows_s_refl assms by blast
next
  case False
  let ?vr = "randomNext r"
  let ?first = "if real_of_int (t - lastDirectionChange (players_s st ! i)) > 1000 + fst ?vr * 2000
               then ebind (updateAIDirection st i (snd ?vr)) (\<lambda>sr1.
                      Inr (updPlayer_s (fst sr1) i (\<lambda>p. p\<lparr>lastDirectionChange := t\<rparr>), snd sr1))
               else Inr (st, snd ?vr)"
  note r1 = rngOk_next [OF assms]
  obtain st2 r2 where f: "?first = Inr (st2, r2)" and g2: "grows_s st st2" and rng2: "rngOk r2"
    using updateAIDirection_stamped [OF r1, of st i t] grows_s_refl [of st] r1
    by (cases "real_of_int (t - lastDirectionChange (players_s st ! i)) > 1000 + fst ?vr * 2000") auto
  let ?second = "if isAIInDanger st2 (players_s st2 ! i)
          then ebind (updateAIDirection st2 i r2) (\<lambda>sr3.
                 Inr (updPlayer_s (fst sr3) i (\<lambda>p. p\<lparr>lastDirectionChange := t\<rparr>), snd sr3))
          else Inr (st2, r2)"
  obtain st3 r3 where s: "?second = Inr (st3, r3)" and g3: "grows_s st2 st3" and rng3: "rngOk r3"
    using updateAIDirection_stamped [OF rng2, of st2 i t] grows_s_refl [of st2] rng2
    by (cases "isAIInDanger st2 (players_s st2 ! i)") auto
  have "updateAIPlayer_s t i (st, r) = ebind ?first (\<lambda>sr2.
          if isAIInDanger (fst sr2) (players_s (fst sr2) ! i)
          then ebind (updateAIDirection (fst sr2) i (snd sr2)) (\<lambda>sr3.
                 Inr (updPlayer_s (fst sr3) i (\<lambda>p. p\<lparr>lastDirectionChange := t\<rparr>), snd sr3))
          else Inr sr2)"
    using False by (auto simp add: updateAIPlayer_s_def Let_def)
  then have "updateAIPlayer_s t i (st, r) = Inr (st3, r3)"
    unfolding f by (simp only: ebind_Inr fst_conv snd_conv s)
  moreover have "grows_s st st3" using g2 g3 by (rule grows_s_trans)
  ultimately show ?thesis using rng3 by blast
qed

lemma updateAI_s_total:
  assumes "rngOk r"
  shows "\<exists>st' r'. updateAI_s st t r = Inr (st', r') \<and> grows_s st st' \<and> rngOk r'"
proof -
  let ?I = "\<lambda>sr. grows_s st (fst sr) \<and> rngOk (snd sr)"
  have "\<exists>s'. forOf [0..<length (players_s st)] (st, r) (updateAIPlayer_s t) = Inr s' \<and> ?I s'"
  proof (rule forOf_invariant)
    show "?I (st, r)" using assms grows_s_refl by simp
  next
    fix x s assume I: "?I s"
    obtain st' r' where "updateAIPlayer_s t x (fst s, snd s) = Inr (st', r')"
      "grows_s (fst s) st'" "rngOk r'"
      using updateAIPlayer_s_total [of "snd s" t x "fst s"] I by blast
    then show "\<exists>s'. updateAIPlayer_s t x s = Inr s' \<and> ?I s'"
      using I grows_s_trans by (intro exI [of _ "(st', r')"]) auto
  qed
  then show ?thesis by (auto simp: updateAI_s_def)
qed

lemma checkGameEnd_s_total:
  assumes "players_s st \<noteq> []"
  shows "\<exists>st'. checkGameEnd_s st now = Inr st' \<and> players_s st' = players_s st
           \<and> gameStartTime_s st' = gameStartTime_s st
           \<and> (gameRunning_s st' \<longleftrightarrow> gameRunning_s st
                \<and> \<not> (length (filter alive_s (players_s st)) \<le> 1
                       \<or> now - gameStartTime_s st \<ge> gameTimeLimit_s))"
proof -
  have "sort_key (\<lambda>p. - calculateTerritoryArea (territory_s p)) (players_s st) \<noteq> []"
    using assms by (metis length_0_conv length_sort)
  then show ?thesis
    by (simp add: checkGameEnd_s_def showGameOver_s_def Let_def ebind_def)
qed

lemma gameLoop_s_spec:
  assumes rng: "rngOk r" and ne: "players_s st \<noteq> []"
  shows "\<exists>st' r'. gameLoop_s st t now r = Inr (st', r') \<and> rngOk r'
           \<and> length (players_s st') = length (players_s st)
           \<and> (\<forall>j < length (players_s st).
                 id_s (players_s st' ! j) = id_s (players_s st ! j)
                 \<and> (\<exists>new. territory_s (players_s st' ! j) = territory_s (players_s st ! j) @ new))
           \<and> (gameRunning_s st' \<longrightarrow> gameRunning_s st)
           \<and> (now - gameStartTime_s st \<ge> gameTimeLimit_s \<longrightarrow> \<not> gameRunning_s st')"
proof -
  let ?st0 = "st\<lparr>lastFrameTime := t\<rparr>"
  let ?dt = "real_of_int (t - lastFrameTime st) / 1000"
  have g0: "grows_s st ?st0" by (simp add: grows_s_def)
  show ?thesis
  proof (cases "gameRunning_s st")
    case False
    then have "gameLoop_s st t now r = Inr (?st0, r)"
      by (simp add: gameLoop_s_def Let_def)
    then show ?thesis using rng False by simp
  next
    case True
    let ?st1 = "updatePlayers_s ?st0 ?dt"
    let ?st2 = "checkCollisions ?st1"
    have g1: "grows_s ?st0 ?st1" by (rule updatePlayers_s_grows)
    have g2: "grows_s ?st1 ?st2" by (rule checkCollisions_grows)
    obtain st3 r3 where a: "updateAI_s ?st2 t r = Inr (st3, r3)" and g3: "grows_s ?st2 st3"
      and rng3: "rngOk r3"
      using updateAI_s_total [OF rng] by blast
    have g: "grows_s st st3"
      using g0 g1 g2 g3 grows_s_trans by blast
    then have ne3: "players_s st3 \<noteq> []"
      using ne unfolding grows_s_def by (metis length_0_conv)
    obtain st4 where c: "checkGameEnd_s st3 now = Inr st4" and p4: "players_s st4 = players_s st3"
      and run4: "gameRunning_s st4 \<longleftrightarrow> gameRunning_s st3
                \<and> \<not> (length (filter alive_s (players_s st3)) \<le> 1
                       \<or> now - gameStartTime_s st3 \<ge> gameTimeLimit_s)"
      using checkGameEnd_s_total [OF ne3] by blast
    have run0: "gameRunning_s ?st0" using True by simp
    have r: "gameLoop_s st t now r = Inr (st4, r3)"
      unfolding gameLoop_s_def Let_def
      by (simp only: run0 if_True a c ebind_Inr fst_conv snd_conv)
    have st3: "gameStartTime_s st3 = gameStartTime_s st" "gameRunning_s st3 = gameRunning_s st"
      "length (players_s st3) = length (players_s st)"
      using g by (simp_all add: grows_s_def)
    have terr: "\<forall>j < length (players_s st).
                 id_s (players_s st4 ! j) = id_s (players_s st ! j)
                 \<and> (\<exists>new. territory_s (players_s st4 ! j) = territory_s (players_s st ! j) @ new)"
      using g unfolding p4 grows_s_def by blast
    show ?thesis
      using r rng3 terr run4 st3 p4 by simp
  qed
qed

lemma handleInput_stopped: "\<not> gameRunning_s st \<Longrightarrow> handleInput st keys = Inr st"
  by (simp add: handleInput_def)

lemma gameLoop_s_stopped:
  "\<not> gameRunning_s st \<Longrightarrow> gameLoop_s st t now r = Inr (st\<lparr>lastFrameTime := t\<rparr>, r)"
  by (simp add: gameLoop_s_def Let_def)

lemma run_s_stopped:
  assumes "\<not> gameRunning_s st"
  shows "\<exists>st' keys'. run_s evs (st, r, keys) = Inr (st', r, keys')
           \<and> \<not> gameRunning_s st' \<and> players_s st' = players_s st"
  using assms
proof (induction evs arbitrary: st keys)
  case Nil
  then show ?case by simp
next
  case (Cons ev evs)
  show ?case
  proof (cases ev)
    case (Frame_s t now)
    let ?st1 = "st\<lparr>lastFrameTime := t\<rparr>"
    have "\<not> gameRunning_s ?st1" using Cons.prems by simp
    from Cons.IH [OF this, of keys]
    obtain st' keys' where "run_s evs (?st1, r, keys) = Inr (st', r, keys')"
      "\<not> gameRunning_s st'" "players_s st' = players_s ?st1" by blast
    then show ?thesis
      using Frame_s Cons.prems by (simp add: gameLoop_s_stopped ebind_Inr)
  next
    case (KeyDown_s k)
    have "run_s (ev # evs) (st, r, keys) = run_s evs (st, r, keys(k := True))"
      using KeyDown_s Cons.prems by (simp add: handleInput_stopped ebind_Inr Let_def)
    then show ?thesis
      using Cons.IH [OF Cons.prems, of "keys(k := True)"] by (simp only:)
  next
    case (KeyUp_s k)
    have "run_s (ev # evs) (st, r, keys) = run_s evs (st, r, keys(k := False))"
      using KeyUp_s by simp
    then show ?thesis
      using Cons.IH [OF Cons.prems, of "keys(k := False)"] by (simp only:)
  qed
qed

section \<open>The end of the game\<close>

text \<open>
  C5. The end check of either engine stops the game when at most one player is alive or
  180000 ms have passed, and a frame that starts after 180000 ms ends with the game
  stopped. A stopped game stays stopped through every run of frames and key events (the
  grid engine's state does not change at all); only initializeGame sets the flag again.
\<close>

theorem gameRunning_one_way:
  "(length (filter alive (players st)) \<le> 1 \<or> now - gameStartTime st \<ge> 180000
      \<longrightarrow> \<not> gameRunning (checkGameEnd st now))
   \<and> (rowsOk st \<and> rngOk r \<and> now - gameStartTime st \<ge> 180000
      \<longrightarrow> (\<exists>st' r'. gameLoop (Suc d) st t now r = Inr (st', r') \<and> \<not> gameRunning st'))
   \<and> (\<not> gameRunning st \<longrightarrow> run depth evs (st, r) = Inr (st, r))
   \<and> gameRunning (fst (initializeGame st now r))
   \<and> (players_s g \<noteq> []
        \<and> (length (filter alive_s (players_s g)) \<le> 1 \<or> now - gameStartTime_s g \<ge> 180000)
      \<longrightarrow> (\<exists>g'. checkGameEnd_s g now = Inr g' \<and> \<not> gameRunning_s g'))
   \<and> (players_s g \<noteq> [] \<and> rngOk r \<and> now - gameStartTime_s g \<ge> 180000
      \<longrightarrow> (\<exists>g' r'. gameLoop_s g t now r = Inr (g', r') \<and> \<not> gameRunning_s g'))
   \<and> (\<not> gameRunning_s g
      \<longrightarrow> (\<exists>g' keys'. run_s evs_s (g, r, keys) = Inr (g', r, keys') \<and> \<not> gameRunning_s g'))
   \<and> gameRunning_s (initializeGame_s g now now2)"
proof -
  have 1: "length (filter alive (players st)) \<le> 1 \<or> now - gameStartTime st \<ge> 180000
      \<longrightarrow> \<not> gameRunning (checkGameEnd st now)"
    by (simp add: checkGameEnd_running gameTimeLimit_def)
  have 2: "rowsOk st \<and> rngOk r \<and> now - gameStartTime st \<ge> 180000
      \<longrightarrow> (\<exists>st' r'. gameLoop (Suc d) st t now r = Inr (st', r') \<and> \<not> gameRunning st')"
  proof
    assume h: "rowsOk st \<and> rngOk r \<and> now - gameStartTime st \<ge> 180000"
    then obtain st' r' where "gameLoop (Suc d) st t now r = Inr (st', r')"
      "now - gameStartTime st \<ge> gameTimeLimit \<longrightarrow> \<not> gameRunning st'"
      using gameLoop_spec [of st r d t now] by blast
    then show "\<exists>st' r'. gameLoop (Suc d) st t now r = Inr (st', r') \<and> \<not> gameRunning st'"
      using h by (auto simp: gameTimeLimit_def)
  qed
  have 3: "\<not> gameRunning st \<longrightarrow> run depth evs (st, r) = Inr (st, r)"
    using run_stopped by blast
  have 4: "gameRunning (fst (initializeGame st now r))"
    by (rule initializeGame_running)
  have 5: "players_s g \<noteq> []
        \<and> (length (filter alive_s (players_s g)) \<le> 1 \<or> now - gameStartTime_s g \<ge> 180000)
      \<longrightarrow> (\<exists>g'. checkGameEnd_s g now = Inr g' \<and> \<not> gameRunning_s g')"
  proof
    assume h: "players_s g \<noteq> []
        \<and> (length (filter alive_s (players_s g)) \<le> 1 \<or> now - gameStartTime_s g \<ge> 180000)"
    then obtain g' where "checkGameEnd_s g now = Inr g'"
      "gameRunning_s g' \<longleftrightarrow> gameRunning_s g
                \<and> \<not> (length (filter alive_s (players_s g)) \<le> 1
                       \<or> now - gameStartTime_s g \<ge> gameTimeLimit_s)"
      using checkGameEnd_s_total [of g now] by blast
    then show "\<exists>g'. checkGameEnd_s g now = Inr g' \<and> \<not> gameRunning_s g'"
      using h by (auto simp: gameTimeLimit_s_def)
  qed
  have 6: "players_s g \<noteq> [] \<and> rngOk r \<and> now - gameStartTime_s g \<ge> 180000
      \<longrightarrow> (\<exists>g' r'. gameLoop_s g t now r = Inr (g', r') \<and> \<not> gameRunning_s g')"
  proof
    assume h: "players_s g \<noteq> [] \<and> rngOk r \<and> now - gameStartTime_s g \<ge> 180000"
    then obtain g' r' where "gameLoop_s g t now r = Inr (g', r')"
      "now - gameStartTime_s g \<ge> gameTimeLimit_s \<longrightarrow> \<not> gameRunning_s g'"
      using gameLoop_s_spec [of r g t now] by blast
    then show "\<exists>g' r'. gameLoop_s g t now r = Inr (g', r') \<and> \<not> gameRunning_s g'"
      using h by (auto simp: gameTimeLimit_s_def)
  qed
  have 7: "\<not> gameRunning_s g
      \<longrightarrow> (\<exists>g' keys'. run_s evs_s (g, r, keys) = Inr (g', r, keys') \<and> \<not> gameRunning_s g')"
    using run_s_stopped [of g evs_s r keys] by blast
  have 8: "gameRunning_s (initializeGame_s g now now2)"
    by (simp add: initializeGame_s_def)
  show ?thesis
    using 1 2 3 4 5 6 7 8 by (intro conjI)
qed

theorem gameRunning_one_way_witness:
  "180000 - gameStartTime exGame \<ge> 180000
   \<and> \<not> gameRunning (checkGameEnd exGame 180000)
   \<and> \<not> gameRunning exStopped
   \<and> run 1 [Frame 200000 200000, KeyDown ''ArrowUp'', Frame 200016 200016] (exStopped, exRng)
       = Inr (exStopped, exRng)
   \<and> players_s exGame_s \<noteq> [] \<and> 180000 - gameStartTime_s exGame_s \<ge> 180000
   \<and> (\<exists>g'. checkGameEnd_s exGame_s 180000 = Inr g' \<and> \<not> gameRunning_s g')
   \<and> \<not> gameRunning_s exStopped_s
   \<and> (\<exists>g' keys'. run_s [Frame_s 200000 200000, KeyDown_s ''ArrowUp''] (exStopped_s, exRng, \<lambda>k. False)
          = Inr (g', exRng, keys') \<and> \<not> gameRunning_s g')"
proof -
  have t: "180000 - gameStartTime exGame \<ge> 180000" by (simp add: exGame_def)
  have ts: "180000 - gameStartTime_s exGame_s \<ge> 180000" by (simp add: exGame_s_def)
  have ne: "players_s exGame_s \<noteq> []" by (simp add: exGame_s_def)
  have s: "\<not> gameRunning exStopped" by (simp add: exStopped_def)
  have ss: "\<not> gameRunning_s exStopped_s" by (simp add: exStopped_s_def)
  note inst1 = gameRunning_one_way [where st = exGame and now = 180000 and g = exGame_s]
  let ?evs = "[Frame 200000 200000, KeyDown ''ArrowUp'', Frame 200016 200016]"
  let ?evs_s = "[Frame_s 200000 200000, KeyDown_s ''ArrowUp'']"
  let ?keys = "\<lambda>k :: string. False"
  note inst2 = gameRunning_one_way [where st = exStopped and g = exStopped_s and r = exRng
      and depth = 1 and evs = ?evs and evs_s = ?evs_s and keys = ?keys]
  have a: "\<not> gameRunning (checkGameEnd exGame 180000)"
    using inst1 t by blast
  have b: "run 1 [Frame 200000 200000, KeyDown ''ArrowUp'', Frame 200016 200016] (exStopped, exRng)
       = Inr (exStopped, exRng)"
    using inst2 s by blast
  have c: "\<exists>g'. checkGameEnd_s exGame_s 180000 = Inr g' \<and> \<not> gameRunning_s g'"
    using inst1 ne ts by blast
  have d: "\<exists>g' keys'. run_s [Frame_s 200000 200000, KeyDown_s ''ArrowUp''] (exStopped_s, exRng, \<lambda>k. False)
          = Inr (g', exRng, keys') \<and> \<not> gameRunning_s g'"
    using inst2 ss by blast
  show ?thesis
    using t a s b ne ts c ss d by (intro conjI)
qed

section \<open>The ranking, and how territory changes\<close>

text \<open>
  C10. showGameOver of the grid engine replaces the players array by a permutation of
  itself in descending order of territory size, so that afterwards no player has a
  larger territory than the one at index 0; on the small board the player at index 0 is
  the human player with id 1 before and the player with id 2 after. showGameOver of the
  continuous engine returns the state it was given, with a ranking that is a sorted
  permutation of the players.
\<close>

theorem showGameOver_sorts_in_place:
  "mset (players (showGameOver st)) = mset (players st)
   \<and> sorted (map (\<lambda>p. - int (length (territory p))) (players (showGameOver st)))
   \<and> (\<forall>p \<in> set (players st).
         length (territory p) \<le> length (territory (players (showGameOver st) ! 0)))
   \<and> pid (players exGame ! 0) = 1 \<and> isHuman (players exGame ! 0)
   \<and> pid (players (showGameOver exGame) ! 0) = 2 \<and> \<not> isHuman (players (showGameOver exGame) ! 0)
   \<and> (players_s g \<noteq> [] \<longrightarrow>
        (\<exists>ranking. showGameOver_s g = Inr (g, ranking)
           \<and> mset ranking = mset (players_s g)
           \<and> sorted (map (\<lambda>p. - calculateTerritoryArea (territory_s p)) ranking)))"
proof -
  have ex: "players (showGameOver exGame) = [exQ, exP]"
    by (simp add: showGameOver_def exGame_def exP_def exQ_def)
  have e1: "pid (players exGame ! 0) = 1 \<and> isHuman (players exGame ! 0)"
    by (simp add: exGame_def exP_def)
  have e2: "pid (players (showGameOver exGame) ! 0) = 2 \<and> \<not> isHuman (players (showGameOver exGame) ! 0)"
    unfolding ex by (simp add: exQ_def)
  have s: "players_s g \<noteq> [] \<longrightarrow>
        (\<exists>ranking. showGameOver_s g = Inr (g, ranking)
           \<and> mset ranking = mset (players_s g)
           \<and> sorted (map (\<lambda>p. - calculateTerritoryArea (territory_s p)) ranking))"
  proof
    assume "players_s g \<noteq> []"
    then have "sort_key (\<lambda>p. - calculateTerritoryArea (territory_s p)) (players_s g) \<noteq> []"
      by (metis length_0_conv length_sort)
    then show "\<exists>ranking. showGameOver_s g = Inr (g, ranking)
           \<and> mset ranking = mset (players_s g)
           \<and> sorted (map (\<lambda>p. - calculateTerritoryArea (territory_s p)) ranking)"
      by (simp add: showGameOver_s_def Let_def)
  qed
  show ?thesis
    using showGameOver_mset [of st] showGameOver_sorted [of st] showGameOver_head [of _ st] e1 e2 s
    by (intro conjI ballI) simp_all
qed

theorem showGameOver_sorts_in_place_witness:
  "exP \<in> set (players exGame)
   \<and> length (territory exP) \<le> length (territory (players (showGameOver exGame) ! 0))
   \<and> players_s exGame_s \<noteq> []
   \<and> (\<exists>ranking. showGameOver_s exGame_s = Inr (exGame_s, ranking))"
proof -
  have p: "exP \<in> set (players exGame)" by (simp add: exGame_def)
  have ne: "players_s exGame_s \<noteq> []" by (simp add: exGame_s_def)
  note inst = showGameOver_sorts_in_place [of exGame exGame_s]
  have a: "length (territory exP) \<le> length (territory (players (showGameOver exGame) ! 0))"
    using inst p by blast
  have b: "\<exists>ranking. showGameOver_s exGame_s = Inr (exGame_s, ranking)"
    using inst ne by blast
  show ?thesis using p a ne b by (intro conjI)
qed

text \<open>
  How territory changes. A frame of the grid engine returns when the rows of the cells
  the players stand on and of their trail cells exist, and then every player is still
  there with a territory set that contains the one it had; a cell with a nonzero owner
  that no player stands on or has in its trail keeps its owner. A frame of the continuous
  engine returns, and every player's list of polygons is the one it had, extended at the
  end. Elimination changes no territory.
\<close>

lemma territory_only_grows:
  "(rowsOk st \<and> rngOk r \<longrightarrow>
      (\<exists>st' r'. gameLoop (Suc d) st t now r = Inr (st', r') \<and> rowsOk st' \<and> rngOk r'
         \<and> (\<forall>p \<in> set (players st). \<exists>p' \<in> set (players st').
               pid p' = pid p \<and> set (territory p) \<subseteq> set (territory p'))
         \<and> (\<forall>c ow. grid st c = Some ow \<and> ow \<noteq> 0 \<and> c \<notin> trailCells st \<longrightarrow> grid st' c = Some ow)))
   \<and> (i < length (players st) \<longrightarrow>
      (\<exists>st'. eliminatePlayer (Suc d) st i = Inr st'
         \<and> territory (players st' ! i) = territory (players st ! i) \<and> grid st' = grid st))
   \<and> (rngOk r \<and> players_s g \<noteq> [] \<longrightarrow>
      (\<exists>g' r'. gameLoop_s g t now r = Inr (g', r') \<and> rngOk r'
         \<and> length (players_s g') = length (players_s g)
         \<and> (\<forall>j < length (players_s g).
               id_s (players_s g' ! j) = id_s (players_s g ! j)
               \<and> (\<exists>new. territory_s (players_s g' ! j) = territory_s (players_s g ! j) @ new))))
   \<and> territory_s (players_s (eliminatePlayer_s g i) ! i) = territory_s (players_s g ! i)"
proof -
  have 1: "rowsOk st \<and> rngOk r \<longrightarrow>
      (\<exists>st' r'. gameLoop (Suc d) st t now r = Inr (st', r') \<and> rowsOk st' \<and> rngOk r'
         \<and> (\<forall>p \<in> set (players st). \<exists>p' \<in> set (players st').
               pid p' = pid p \<and> set (territory p) \<subseteq> set (territory p'))
         \<and> (\<forall>c ow. grid st c = Some ow \<and> ow \<noteq> 0 \<and> c \<notin> trailCells st \<longrightarrow> grid st' c = Some ow))"
    using gameLoop_spec [of st r d t now] unfolding terrGrows_def keepsOwned_def by blast
  have 2: "i < length (players st) \<longrightarrow>
      (\<exists>st'. eliminatePlayer (Suc d) st i = Inr st'
         \<and> territory (players st' ! i) = territory (players st ! i) \<and> grid st' = grid st)"
    by (simp add: eliminatePlayer_eq updPlayer_simps)
  have 3: "rngOk r \<and> players_s g \<noteq> [] \<longrightarrow>
      (\<exists>g' r'. gameLoop_s g t now r = Inr (g', r') \<and> rngOk r'
         \<and> length (players_s g') = length (players_s g)
         \<and> (\<forall>j < length (players_s g).
               id_s (players_s g' ! j) = id_s (players_s g ! j)
               \<and> (\<exists>new. territory_s (players_s g' ! j) = territory_s (players_s g ! j) @ new)))"
    using gameLoop_s_spec [of r g t now] by blast
  have 4: "territory_s (players_s (eliminatePlayer_s g i) ! i) = territory_s (players_s g ! i)"
    by (cases "i < length (players_s g)")
      (simp_all add: eliminatePlayer_s_def updPlayer_s_def list_update_beyond)
  show ?thesis using 1 2 3 4 by (intro conjI)
qed

text \<open>
  C7, the owner of a cell. In the game \<open>exPlay1\<close> player 1 first claims the cells (6,3),
  (7,3) and (7,4), then leaves its territory again over (5,3) to (4,3). In the frame at
  1900 player 2 closes its trail [(2,3), (3,3)]: the cells (4,3) and (5,3) are now
  enclosed and unowned, and the flood fill gives them to player 2, although player 1
  stands on the one and has the other in its open trail. In the frame at 2000 player 1
  steps back onto its territory and closes its trail: the cell (4,3), owned by player 2
  before the frame, is owned by player 1 after it, and is in the territory sets of both.
\<close>

theorem owner_changes_at_claim:
  "beforeAfter exPlay1 exEvents2 (4, 3) = (Some (Some 2, [2]), Some (Some 1, [1, 2]))"
  by code_simp

text \<open>
  The same in two frames on the small board: player 2 is due at time 150 and closes its
  trail, and the flood fill gives it the cell (2,2) on the open trail of player 1;
  player 1 is due at time 200 and closes its trail, and the cell becomes player 1's.
\<close>

lemma owner_changes_small_board:
  "ownerAfter exFrame1 (2, 2) = Some 2 \<and> ownerAfter exFrame2 (2, 2) = Some 1"
  by code_simp

end
